theory Spec2Isabelle
  imports Main "HOL-Library.Multiset"
begin

text \<open>
  The rate-limited request queue (\<^verbatim>\<open>class RequestQueue\<close>) and the batch runner
  \<^verbatim>\<open>executeParallel\<close> of \<^verbatim>\<open>src/services/firecrawl/utils.ts\<close>, the batch runner
  \<^verbatim>\<open>executeParallelTasks\<close> of \<^verbatim>\<open>src/services/openai/utils.ts\<close>, and the client
  wrapper around \<^verbatim>\<open>executeParallel\<close> in \<^verbatim>\<open>createFirecrawlClient\<close>.

  Time is the millisecond clock \<^verbatim>\<open>Date.now()\<close>. A promise is described by when and how
  it settles; the runtime is Node.js (the queue uses \<^verbatim>\<open>setImmediate\<close>).
\<close>

section \<open>Values, errors and promises\<close>

text \<open>
  The error classes of \<^verbatim>\<open>src/utils/errors.ts\<close> that the two utilities tell apart:
  a \<^verbatim>\<open>FirecrawlError\<close> carries a message and a \<^verbatim>\<open>statusCode\<close>; every other
  \<^verbatim>\<open>Error\<close> instance is a \<open>PlainError\<close>. \<open>TaskTimedOut n\<close> stands for
  \<^verbatim>\<open>new Error(`Task timed out after ${n}ms`)\<close> of \<^verbatim>\<open>executeParallelTasks\<close>.
  JavaScript can throw any value: \<open>Raw s\<close> is a thrown value that is no \<^verbatim>\<open>Error\<close>
  instance, with \<open>s\<close> its \<^verbatim>\<open>String(...)\<close> rendering.
\<close>

datatype js_error =
    FirecrawlError string int
  | PlainError string
  | TaskTimedOut int

datatype thrown = Err js_error | Raw string

text \<open>\<^verbatim>\<open>error instanceof Error ? error : new Error(String(error))\<close>\<close>

fun toError :: "thrown \<Rightarrow> js_error" where
  "toError (Err e) = e"
| "toError (Raw s) = PlainError s"

text \<open>\<^verbatim>\<open>error instanceof FirecrawlError && error.statusCode === 429\<close>\<close>

fun isRateLimit :: "thrown \<Rightarrow> bool" where
  "isRateLimit (Err (FirecrawlError msg statusCode)) = (statusCode = 429)"
| "isRateLimit _ = False"

text \<open>
  A result of the generic type \<^verbatim>\<open>T\<close>. The runners compare results with \<^verbatim>\<open>null\<close>,
  so \<^verbatim>\<open>null\<close> is kept apart from every other value.
\<close>

datatype 'a js = Null | Val 'a

text \<open>
  A promise, seen from the moment it is created: it fulfils with a value after \<open>d\<close>
  milliseconds, rejects with a thrown value after \<open>d\<close> milliseconds, or never settles.
\<close>

datatype 'a promise = Fulfils nat 'a | Rejects nat thrown | Never

text \<open>
  A task of the batch runners is a function \<^verbatim>\<open>() => Promise<T>\<close> that the runner calls
  at most once. The call returns a promise (\<open>Async\<close>, as every call of an \<^verbatim>\<open>async\<close>
  function does), or it throws before it has returned one (\<open>Throwing\<close>).
\<close>

datatype 'a task = Async "'a js promise" | Throwing thrown

text \<open>
  \<^verbatim>\<open>await task()\<close> inside an \<^verbatim>\<open>async\<close> function: what the function waits for. A
  throw of the call is thrown at the \<^verbatim>\<open>await\<close>, at once.
\<close>

fun awaited :: "'a task \<Rightarrow> 'a js promise" where
  "awaited (Async p) = p"
| "awaited (Throwing e) = Rejects 0 e"

text \<open>
  Node.js timers: \<^verbatim>\<open>setTimeout(cb, delay)\<close> runs \<^verbatim>\<open>cb\<close> after \<open>delay\<close> milliseconds;
  a delay that is \<^verbatim>\<open>NaN\<close> (here \<open>None\<close>), below 1 or above \<open>2^31 - 1\<close> is set to 1.
\<close>

definition setTimeout_delay :: "int option \<Rightarrow> nat" where
  "setTimeout_delay delay =
     (case delay of
        None \<Rightarrow> 1
      | Some d \<Rightarrow> if d < 1 \<or> d > 2147483647 then 1 else nat d)"

text \<open>
  \<^verbatim>\<open>Promise.race([task(), new Promise((_, reject) => setTimeout(() => reject(err), timeoutMs))])\<close>
  of \<^verbatim>\<open>executeParallelTasks\<close>, for a call \<^verbatim>\<open>task()\<close> that has returned the promise
  \<open>p\<close>: the race settles as the promise that settles first. The task is called before
  the timer is set, so when both settle in the same millisecond the task's promise wins.
\<close>

definition raceTimeout :: "int \<Rightarrow> js_error \<Rightarrow> 'a promise \<Rightarrow> 'a promise" where
  "raceTimeout timeoutMs err p =
     (let t = setTimeout_delay (Some timeoutMs) in
      case p of
        Fulfils d v \<Rightarrow> if d \<le> t then Fulfils d v else Rejects t (Err err)
      | Rejects d e \<Rightarrow> if d \<le> t then Rejects d e else Rejects t (Err err)
      | Never \<Rightarrow> Rejects t (Err err))"

text \<open>
  The same race in the client wrapper of \<^verbatim>\<open>createFirecrawlClient\<close>, which sets the timer
  first and calls \<^verbatim>\<open>task()\<close> after it: a task that takes exactly \<open>timeoutMs\<close>
  milliseconds settles after the timer has fired, and the timer wins.
\<close>

definition raceTimerFirst :: "int \<Rightarrow> js_error \<Rightarrow> 'a promise \<Rightarrow> 'a promise" where
  "raceTimerFirst timeoutMs err p =
     (let t = setTimeout_delay (Some timeoutMs) in
      case p of
        Fulfils d v \<Rightarrow> if d < t then Fulfils d v else Rejects t (Err err)
      | Rejects d e \<Rightarrow> if d < t then Rejects d e else Rejects t (Err err)
      | Never \<Rightarrow> Rejects t (Err err))"

section \<open>The batch runners\<close>

text \<open>
  \<^verbatim>\<open>Array.prototype.slice(start, end)\<close>: a negative index counts from the end of the
  array, both indices are clamped to the array, and an empty range gives \<open>[]\<close>.
\<close>

definition js_slice :: "'a list \<Rightarrow> int \<Rightarrow> int \<Rightarrow> 'a list" where
  "js_slice xs start fin =
     (let n = int (length xs);
          k = (if start < 0 then max (n + start) 0 else min start n);
          e = (if fin < 0 then max (n + fin) 0 else min fin n)
      in if k < e then take (nat (e - k)) (drop (nat k) xs) else [])"

text \<open>
  The handler around each task of a batch (\<^verbatim>\<open>try { return await task() } catch ...\<close> in
  \<^verbatim>\<open>executeParallel\<close>, \<^verbatim>\<open>promise.catch(...)\<close> in \<^verbatim>\<open>executeParallelTasks\<close>),
  applied to the promise it waits for: a fulfilled promise keeps its value; a rejected one
  is rethrown when \<open>abortOnError\<close> is set, and otherwise its error is pushed and the
  handler fulfils with \<^verbatim>\<open>null\<close>.
\<close>

fun guarded :: "bool \<Rightarrow> 'a js promise \<Rightarrow> 'a js promise" where
  "guarded abortOnError (Fulfils d v) = Fulfils d v"
| "guarded abortOnError (Rejects d e) =
     (if abortOnError then Rejects d e else Fulfils d Null)"
| "guarded abortOnError Never = Never"

text \<open>
  The tasks of a batch that throw when they are called, with what they throw, and the
  promises that the other tasks return; both in batch order.
\<close>

fun syncThrown :: "'a task list \<Rightarrow> thrown list" where
  "syncThrown [] = []"
| "syncThrown (Throwing e # tasks) = e # syncThrown tasks"
| "syncThrown (Async p # tasks) = syncThrown tasks"

fun returned :: "'a task list \<Rightarrow> 'a js promise list" where
  "returned [] = []"
| "returned (Async p # tasks) = p # returned tasks"
| "returned (Throwing e # tasks) = returned tasks"

text \<open>
  The errors that the handlers of rejected promises push when \<open>abortOnError\<close> is off:
  one per rejected promise, in the order in which the promises reject (promises rejecting
  in the same millisecond in batch order).
\<close>

fun rejections :: "'a promise list \<Rightarrow> (nat \<times> thrown) list" where
  "rejections [] = []"
| "rejections (Rejects d e # ps) = (d, e) # rejections ps"
| "rejections (p # ps) = rejections ps"

definition pushedErrors :: "'a promise list \<Rightarrow> js_error list" where
  "pushedErrors ps = map (\<lambda>(d, e). toError e) (sort_key fst (rejections ps))"

text \<open>
  \<^verbatim>\<open>Promise.all\<close>: rejects as soon as one element rejects, with that element's reason
  (the earliest rejection; the first in array order among simultaneous ones); fulfils
  with all values, in array order, when every element has fulfilled; and otherwise never
  settles.
\<close>

fun firstRejection :: "'a promise list \<Rightarrow> (nat \<times> thrown) option" where
  "firstRejection [] = None"
| "firstRejection (Rejects d e # ps) =
     (case firstRejection ps of
        None \<Rightarrow> Some (d, e)
      | Some (d', e') \<Rightarrow> if d' < d then Some (d', e') else Some (d, e))"
| "firstRejection (p # ps) = firstRejection ps"

fun fulfilments :: "'a promise list \<Rightarrow> 'a list option" where
  "fulfilments [] = Some []"
| "fulfilments (Fulfils d v # ps) = map_option ((#) v) (fulfilments ps)"
| "fulfilments (p # ps) = None"

datatype 'a batch_outcome =
    BatchResults "'a list"
  | BatchThrows thrown
  | BatchPending

definition promiseAll :: "'a promise list \<Rightarrow> 'a batch_outcome" where
  "promiseAll ps =
     (case firstRejection ps of
        Some (d, e) \<Rightarrow> BatchThrows e
      | None \<Rightarrow> (case fulfilments ps of
                   Some vs \<Rightarrow> BatchResults vs
                 | None \<Rightarrow> BatchPending))"

text \<open>
  How the \<^verbatim>\<open>try\<close> block of one turn of a runner's loop ends: with the array
  \<open>batchResults\<close>, the handlers having pushed some errors on the way; with a throw; or
  never.
\<close>

datatype 'a try_outcome =
    TryResults "'a js list" "js_error list"
  | TryThrows thrown
  | TryPending

text \<open>
  The \<^verbatim>\<open>try\<close> block of \<^verbatim>\<open>executeParallel\<close>:
  \<^verbatim>\<open>await Promise.all(batch.map(async (task) => { try { return await task() } catch (error) {...} }))\<close>.
  Every task of the batch is called, inside its own handler. A task that throws when it is
  called is handled while \<^verbatim>\<open>batch.map\<close> runs, before any promise settles: with
  \<open>abortOnError\<close> set its handler's promise is rejected before \<^verbatim>\<open>Promise.all\<close> sees
  it, so the first such task in batch order gives \<^verbatim>\<open>Promise.all\<close> its reason; with
  \<open>abortOnError\<close> off its error is pushed at once.
\<close>

definition awaitedBatch :: "bool \<Rightarrow> 'a task list \<Rightarrow> 'a try_outcome" where
  "awaitedBatch abortOnError batch =
     (case (if abortOnError then syncThrown batch else []) of
        e # _ \<Rightarrow> TryThrows e
      | [] \<Rightarrow>
          (case promiseAll (map (\<lambda>task. guarded abortOnError (awaited task)) batch) of
             BatchPending \<Rightarrow> TryPending
           | BatchThrows e \<Rightarrow> TryThrows e
           | BatchResults batchResults \<Rightarrow>
               TryResults batchResults
                 (if abortOnError then []
                  else map toError (syncThrown batch) @ pushedErrors (returned batch))))"

text \<open>
  The \<^verbatim>\<open>try\<close> block of \<^verbatim>\<open>executeParallelTasks\<close>:
  \<^verbatim>\<open>batchPromises = batch.map(task => Promise.race([task(), ...]))\<close>, then
  \<^verbatim>\<open>await Promise.all(batchPromises.map(promise => promise.catch(...)))\<close>. Here the
  tasks are called outside every handler: a task that throws when it is called ends
  \<^verbatim>\<open>batch.map\<close> and the block with its throw, the tasks after it in the batch are not
  called, and no handler is attached to the promises of the tasks before it.
\<close>

definition racedBatch :: "int \<Rightarrow> bool \<Rightarrow> 'a task list \<Rightarrow> 'a try_outcome" where
  "racedBatch timeoutMs abortOnError batch =
     (case syncThrown batch of
        e # _ \<Rightarrow> TryThrows e
      | [] \<Rightarrow>
          (let batchPromises = map (raceTimeout timeoutMs (TaskTimedOut timeoutMs)) (returned batch)
           in case promiseAll (map (guarded abortOnError) batchPromises) of
                BatchPending \<Rightarrow> TryPending
              | BatchThrows e \<Rightarrow> TryThrows e
              | BatchResults batchResults \<Rightarrow>
                  TryResults batchResults
                    (if abortOnError then [] else pushedErrors batchPromises)))"

text \<open>
  What a call of a runner does: it returns \<open>results\<close> (the model also gives the
  \<open>errors\<close> array the call has built and logs), or it throws. A call that never
  settles is the value \<open>None\<close> of the loop below.
\<close>

datatype 'a run_outcome =
    Returns "'a js list" "js_error list"
  | Throws thrown

text \<open>
  The loop \<^verbatim>\<open>for (let i = 0; i < tasks.length; i += maxConcurrent)\<close> of both runners,
  with the \<^verbatim>\<open>try\<close> block of the runner as \<open>tryBlock\<close>. A block that never ends leaves
  the call pending; the \<^verbatim>\<open>catch\<close> after the block rethrows when \<open>abortOnError\<close> is set
  and otherwise goes on with the next batch; the non-null elements of \<open>batchResults\<close> are
  appended to \<open>results\<close>.
\<close>

partial_function (option) runBatches ::
  "(bool \<Rightarrow> 'a task list \<Rightarrow> 'a try_outcome) \<Rightarrow> 'a task list \<Rightarrow> int \<Rightarrow> bool \<Rightarrow> int \<Rightarrow>
     'a js list \<Rightarrow> js_error list \<Rightarrow> 'a run_outcome option"
where
  "runBatches tryBlock tasks maxConcurrent abortOnError i results errors =
     (if i < int (length tasks) then
        (let batch = js_slice tasks i (i + maxConcurrent) in
         case tryBlock abortOnError batch of
           TryPending \<Rightarrow> None
         | TryThrows e \<Rightarrow>
             if abortOnError then Some (Throws e)
             else runBatches tryBlock tasks maxConcurrent abortOnError (i + maxConcurrent)
                    results errors
         | TryResults batchResults pushed \<Rightarrow>
             runBatches tryBlock tasks maxConcurrent abortOnError (i + maxConcurrent)
               (results @ filter (\<lambda>result. result \<noteq> Null) batchResults)
               (errors @ pushed))
      else Some (Returns results errors))"

text \<open>
  \<^verbatim>\<open>executeParallel(tasks, maxConcurrent = 5, abortOnError = false)\<close> of
  \<^verbatim>\<open>services/firecrawl/utils.ts\<close>; an argument left out is \<open>None\<close>.
\<close>

definition executeParallel ::
  "'a task list \<Rightarrow> int option \<Rightarrow> bool option \<Rightarrow> 'a run_outcome option" where
  "executeParallel tasks maxConcurrent abortOnError =
     runBatches awaitedBatch tasks (case maxConcurrent of None \<Rightarrow> 5 | Some m \<Rightarrow> m)
       (case abortOnError of None \<Rightarrow> False | Some a \<Rightarrow> a) 0 [] []"

text \<open>
  The task that the client wrapper of \<^verbatim>\<open>createFirecrawlClient\<close> makes of a task:
  \<^verbatim>\<open>async () => { const timeoutPromise = ...; return Promise.race([task(), timeoutPromise]) }\<close>.
  It is an \<^verbatim>\<open>async\<close> function, so a throw of \<^verbatim>\<open>task()\<close> rejects the promise it
  returns.
\<close>

fun withTimeout :: "int \<Rightarrow> 'a task \<Rightarrow> 'a task" where
  "withTimeout timeoutMs (Async p) =
     Async (raceTimerFirst timeoutMs (PlainError ''Task execution timed out'') p)"
| "withTimeout timeoutMs (Throwing e) = Async (Rejects 0 e)"

text \<open>
  \<^verbatim>\<open>executeParallelTasks(tasks, options = {})\<close> of \<^verbatim>\<open>services/openai/utils.ts\<close>:
  \<^verbatim>\<open>maxConcurrent = 3\<close>, \<^verbatim>\<open>abortOnError = false\<close>, \<^verbatim>\<open>timeoutMs = 60000\<close> by default.
\<close>

record ('n, 'b) ParallelExecutionOptions =
  maxConcurrent :: 'n
  abortOnError :: 'b
  timeoutMs :: 'n

definition executeParallelTasks ::
  "'a task list \<Rightarrow> (int option, bool option) ParallelExecutionOptions \<Rightarrow> 'a run_outcome option" where
  "executeParallelTasks tasks opts =
     (let mc = (case maxConcurrent opts of None \<Rightarrow> 3 | Some m \<Rightarrow> m);
          abort = (case abortOnError opts of None \<Rightarrow> False | Some a \<Rightarrow> a);
          tmo = (case timeoutMs opts of None \<Rightarrow> 60000 | Some t \<Rightarrow> t)
      in runBatches (racedBatch tmo) tasks mc abort 0 [] [])"

text \<open>
  \<^verbatim>\<open>value || fallback\<close> on an optional number: \<^verbatim>\<open>undefined\<close> (here \<open>None\<close>) and
  \<open>0\<close> are falsy and give the fallback.
\<close>

definition js_or :: "int option \<Rightarrow> int \<Rightarrow> int" where
  "js_or v d = (case v of None \<Rightarrow> d | Some x \<Rightarrow> if x = 0 then d else x)"

text \<open>
  The client wrapper \<^verbatim>\<open>executeParallel(tasks, options)\<close> of \<^verbatim>\<open>createFirecrawlClient\<close>.
  \<open>cfg\<close> is \<^verbatim>\<open>config.defaultParallelOptions\<close>; the wrapper gives every task a timer and
  hands the new tasks to \<open>executeParallel\<close>.
\<close>

definition defaultParallelOptions ::
  "(int option, bool option) ParallelExecutionOptions option \<Rightarrow> (int, bool) ParallelExecutionOptions" where
  "defaultParallelOptions cfg =
     \<lparr>maxConcurrent = js_or (Option.bind cfg maxConcurrent) 5,
      abortOnError = (case Option.bind cfg abortOnError of None \<Rightarrow> False | Some a \<Rightarrow> a),
      timeoutMs = js_or (Option.bind cfg timeoutMs) 30000\<rparr>"

definition client_executeParallel ::
  "(int option, bool option) ParallelExecutionOptions option \<Rightarrow> 'a task list \<Rightarrow>
     (int option, bool option) ParallelExecutionOptions option \<Rightarrow> 'a run_outcome option" where
  "client_executeParallel cfg tasks opts =
     (let dflt = defaultParallelOptions cfg;
          mc = (case Option.bind opts maxConcurrent of None \<Rightarrow> maxConcurrent dflt | Some m \<Rightarrow> m);
          abort = (case Option.bind opts abortOnError of None \<Rightarrow> abortOnError dflt | Some a \<Rightarrow> a);
          tmo = (case Option.bind opts timeoutMs of None \<Rightarrow> timeoutMs dflt | Some t \<Rightarrow> t);
          tasksWithTimeout = map (withTimeout tmo) tasks
      in executeParallel tasksWithTimeout (Some mc) (Some abort))"

subsection \<open>Notions used to state the runners' properties\<close>

text \<open>The values of the promises that fulfil, in order.\<close>

fun successes :: "'a promise list \<Rightarrow> 'a list" where
  "successes [] = []"
| "successes (Fulfils d v # ps) = v # successes ps"
| "successes (p # ps) = successes ps"




text \<open>A promise is late for a timeout of \<open>t\<close> milliseconds when it does not settle within \<open>t\<close>.\<close>

definition late :: "int \<Rightarrow> 'a promise \<Rightarrow> bool" where
  "late t p =
     (case p of Fulfils d v \<Rightarrow> t < int d | Rejects d e \<Rightarrow> t < int d | Never \<Rightarrow> True)"

section \<open>The rate-limited request queue\<close>

text \<open>
  \<^verbatim>\<open>RateLimitOptions\<close> has three optional numbers; \<^verbatim>\<open>Required<RateLimitOptions>\<close>, the
  type of \<^verbatim>\<open>this.options\<close>, has three numbers.
\<close>

record 'n RateLimitOptions =
  maxRequestsPerMinute :: 'n
  retryCount :: 'n
  retryDelayMs :: 'n

text \<open>
  The fields of \<^verbatim>\<open>class RequestQueue\<close>. An entry of \<open>queue\<close> is the closure that
  \<open>enqueue\<close> pushes; it stands for the \<open>requestFn\<close> it wraps.
\<close>

record 'r RequestQueue =
  queue :: "'r list"
  processing :: bool
  requestTimestamps :: "int list"
  options :: "int RateLimitOptions"

definition newRequestQueue :: "int option RateLimitOptions \<Rightarrow> 'r RequestQueue" where
  "newRequestQueue opts =
     \<lparr>queue = [], processing = False, requestTimestamps = [],
      options = \<lparr>maxRequestsPerMinute = js_or (maxRequestsPerMinute opts) 60,
                 retryCount = js_or (retryCount opts) 3,
                 retryDelayMs = js_or (retryDelayMs opts) 1000\<rparr>\<rparr>"

text \<open>
  What a call of \<open>processQueue\<close> leaves scheduled: nothing (\<open>Idle\<close>); a timer that calls
  \<open>processQueue\<close> again (\<open>Defer\<close> with the delay \<^verbatim>\<open>waitTime + 100\<close>, \<open>None\<close> when it is
  \<^verbatim>\<open>NaN\<close> because \<^verbatim>\<open>requestTimestamps[0]\<close> is \<^verbatim>\<open>undefined\<close>); or the admitted request
  (\<open>Admit\<close>), which the call awaits before it schedules \<open>processQueue\<close> with
  \<^verbatim>\<open>setImmediate\<close>.
\<close>

datatype 'r scheduled = Idle | Defer "int option" | Admit 'r

text \<open>
  \<open>processQueue\<close> up to its \<^verbatim>\<open>await\<close>, at \<^verbatim>\<open>Date.now() = now\<close>. This part runs
  without interruption and is the only code that changes the queue's fields.
\<close>

definition processQueue :: "int \<Rightarrow> 'r RequestQueue \<Rightarrow> 'r RequestQueue \<times> 'r scheduled" where
  "processQueue now q =
     (if queue q = [] then (q\<lparr>processing := False\<rparr>, Idle)
      else
        let q1 = q\<lparr>processing := True\<rparr>;
            oneMinuteAgo = now - 60000;
            q2 = q1\<lparr>requestTimestamps :=
                    filter (\<lambda>timestamp. timestamp > oneMinuteAgo) (requestTimestamps q1)\<rparr>
        in if int (length (requestTimestamps q2)) \<ge> maxRequestsPerMinute (options q2) then
             (q2, Defer (case requestTimestamps q2 of
                           [] \<Rightarrow> None
                         | oldestTimestamp # _ \<Rightarrow> Some (60000 - (now - oldestTimestamp) + 100)))
           else (case queue q2 of
                   [] \<Rightarrow> (q2\<lparr>processing := False\<rparr>, Idle)
                 | nextRequest # rest \<Rightarrow>
                     (q2\<lparr>queue := rest, requestTimestamps := requestTimestamps q2 @ [now]\<rparr>,
                      Admit nextRequest)))"

definition enqueue :: "int \<Rightarrow> 'r \<Rightarrow> 'r RequestQueue \<Rightarrow> 'r RequestQueue \<times> 'r scheduled" where
  "enqueue now requestFn q =
     (let q1 = q\<lparr>queue := queue q @ [requestFn]\<rparr>
      in if \<not> processing q1 then processQueue now q1 else (q1, Idle))"

subsection \<open>The queue under any schedule\<close>

text \<open>
  The queue's fields change only in calls of \<open>enqueue\<close> and in callbacks that call
  \<open>processQueue\<close>. A history of the queue is a list of such events, each with the clock
  reading at which it runs; \<open>runEvents\<close> replays it and logs every admission with its
  time. Every execution of the class is such a history, whatever the tasks do.
\<close>

datatype 'r event = Enqueue 'r | Callback

definition fire :: "int \<Rightarrow> 'r event \<Rightarrow> 'r RequestQueue \<Rightarrow> 'r RequestQueue \<times> 'r scheduled" where
  "fire now ev q = (case ev of Enqueue r \<Rightarrow> enqueue now r q | Callback \<Rightarrow> processQueue now q)"

definition noteAdmission :: "int \<Rightarrow> 'r scheduled \<Rightarrow> ('r \<times> int) list \<Rightarrow> ('r \<times> int) list" where
  "noteAdmission now act log = (case act of Admit r \<Rightarrow> log @ [(r, now)] | _ \<Rightarrow> log)"

fun runEvents ::
  "(int \<times> 'r event) list \<Rightarrow> 'r RequestQueue \<Rightarrow> ('r \<times> int) list \<Rightarrow>
     'r RequestQueue \<times> ('r \<times> int) list" where
  "runEvents [] q log = (q, log)"
| "runEvents ((now, ev) # evs) q log =
     (case fire now ev q of (q', act) \<Rightarrow> runEvents evs q' (noteAdmission now act log))"

text \<open>The requests a history submits, in submission order.\<close>

definition enqueued :: "(int \<times> 'r event) list \<Rightarrow> 'r list" where
  "enqueued evs = concat (map (\<lambda>(now, ev). case ev of Enqueue r \<Rightarrow> [r] | Callback \<Rightarrow> []) evs)"

text \<open>The number of timestamps in the 60 seconds that end at \<open>t\<close>.\<close>

definition windowCount :: "int \<Rightarrow> int list \<Rightarrow> nat" where
  "windowCount t stamps = length (filter (\<lambda>x. t - 60000 < x \<and> x \<le> t) stamps)"

subsection \<open>Retries\<close>

text \<open>
  A \<open>requestFn\<close> may be called several times; \<open>requestFn attempt\<close> is the promise its
  call number \<open>attempt\<close> returns. \<open>executeWithRetry\<close> calls it as \<^verbatim>\<open>await requestFn()\<close>
  inside its \<^verbatim>\<open>try\<close>, so a call that throws is a promise rejected at once.
  \<open>executeWithRetry\<close> gives the promise it returns, timed from its own start, and the
  number of times it has called \<open>requestFn\<close>.
\<close>

fun delayed :: "nat \<Rightarrow> 'a promise \<Rightarrow> 'a promise" where
  "delayed k (Fulfils d v) = Fulfils (k + d) v"
| "delayed k (Rejects d e) = Rejects (k + d) e"
| "delayed k Never = Never"

function executeWithRetry ::
  "int RateLimitOptions \<Rightarrow> (int \<Rightarrow> 'v promise) \<Rightarrow> int \<Rightarrow> 'v promise \<times> nat" where
  "executeWithRetry opts requestFn attempt =
     (case requestFn attempt of
        Fulfils d v \<Rightarrow> (Fulfils d v, 1)
      | Never \<Rightarrow> (Never, 1)
      | Rejects d e \<Rightarrow>
          if \<not> isRateLimit e \<or> attempt > retryCount opts then (Rejects d e, 1)
          else (let delay = retryDelayMs opts * attempt in
                case executeWithRetry opts requestFn (attempt + 1) of
                  (p, n) \<Rightarrow> (delayed (d + setTimeout_delay (Some delay)) p, Suc n)))"
  by pat_completeness auto
termination
  by (relation "measure (\<lambda>(opts, requestFn, attempt). nat (retryCount opts + 1 - attempt))") auto

declare executeWithRetry.simps [simp del]

text \<open>
  Two kinds of \<open>requestFn\<close>: one that returns the same promise at every call, and one
  that returns \<open>bad\<close> at the calls before call \<open>k\<close> and \<open>good\<close> from call \<open>k\<close> on.
\<close>

definition constantly :: "'v promise \<Rightarrow> int \<Rightarrow> 'v promise" where
  "constantly p attempt = p"

definition failsUntil :: "int \<Rightarrow> 'v promise \<Rightarrow> 'v promise \<Rightarrow> int \<Rightarrow> 'v promise" where
  "failsUntil k bad good attempt = (if attempt < k then bad else good)"

subsection \<open>The queue draining a burst of requests\<close>

text \<open>
  The event loop after requests have been submitted: \<open>afterProcessQueue\<close> is what follows a
  call of \<open>processQueue\<close> at time \<open>now\<close> that left \<open>act\<close> scheduled, \<open>callProcessQueue\<close>
  is the scheduled call. An admitted request runs \<open>executeWithRetry\<close> from attempt 1;
  \<open>processQueue\<close> awaits it, so the next call comes when it has settled (never, if it never
  settles). Each admission is logged with its time, the number of calls of \<open>requestFn\<close> and
  the promise of \<open>executeWithRetry\<close>. \<open>fuel\<close> bounds the number of \<open>processQueue\<close> calls.
\<close>

record 'v served =
  admittedAt :: int
  calls :: nat
  outcome :: "'v promise"

fun settleTime :: "'a promise \<Rightarrow> nat option" where
  "settleTime (Fulfils d v) = Some d"
| "settleTime (Rejects d e) = Some d"
| "settleTime Never = None"

fun afterProcessQueue ::
  "nat \<Rightarrow> int \<Rightarrow> (int \<Rightarrow> 'v promise) scheduled \<Rightarrow> (int \<Rightarrow> 'v promise) RequestQueue \<Rightarrow>
     'v served list \<Rightarrow> (int \<Rightarrow> 'v promise) RequestQueue \<times> 'v served list"
and callProcessQueue ::
  "nat \<Rightarrow> int \<Rightarrow> (int \<Rightarrow> 'v promise) RequestQueue \<Rightarrow>
     'v served list \<Rightarrow> (int \<Rightarrow> 'v promise) RequestQueue \<times> 'v served list" where
  "afterProcessQueue fuel now Idle q log = (q, log)"
| "afterProcessQueue fuel now (Defer w) q log =
     callProcessQueue fuel (now + int (setTimeout_delay w)) q log"
| "afterProcessQueue fuel now (Admit nextRequest) q log =
     (case executeWithRetry (options q) nextRequest 1 of
        (p, n) \<Rightarrow>
          let log' = log @ [\<lparr>admittedAt = now, calls = n, outcome = p\<rparr>]
          in case settleTime p of
               None \<Rightarrow> (q, log')
             | Some d \<Rightarrow> callProcessQueue fuel (now + int d) q log')"
| "callProcessQueue 0 now q log = (q, log)"
| "callProcessQueue (Suc fuel) now q log =
     (case processQueue now q of (q', act) \<Rightarrow> afterProcessQueue fuel now act q' log)"

text \<open>
  Requests submitted one after the other in the same turn of the event loop, at time
  \<open>now\<close>: the first \<open>enqueue\<close> on an idle queue calls \<open>processQueue\<close>, whose schedule is
  pending while the others are pushed.
\<close>

fun enqueueAll ::
  "int \<Rightarrow> 'r list \<Rightarrow> 'r RequestQueue \<Rightarrow> 'r scheduled \<Rightarrow> 'r RequestQueue \<times> 'r scheduled" where
  "enqueueAll now [] q act = (q, act)"
| "enqueueAll now (r # rs) q act =
     (case enqueue now r q of
        (q', act') \<Rightarrow> enqueueAll now rs q' (case act' of Idle \<Rightarrow> act | _ \<Rightarrow> act'))"

definition simulate ::
  "int option RateLimitOptions \<Rightarrow> int \<Rightarrow> (int \<Rightarrow> 'v promise) list \<Rightarrow> nat \<Rightarrow>
     (int \<Rightarrow> 'v promise) RequestQueue \<times> 'v served list" where
  "simulate opts now requests fuel =
     (case enqueueAll now requests (newRequestQueue opts) Idle of
        (q, act) \<Rightarrow> afterProcessQueue fuel now act q [])"

text \<open>When a served request completed, if it did.\<close>

definition completedAt :: "'v served \<Rightarrow> int option" where
  "completedAt s = map_option (\<lambda>d. admittedAt s + int d) (settleTime (outcome s))"

text \<open>Every request of the log has completed before the next one is admitted.\<close>

fun serial :: "'v served list \<Rightarrow> bool" where
  "serial (a # b # rest) =
     ((case completedAt a of None \<Rightarrow> False | Some c \<Rightarrow> c \<le> admittedAt b) \<and> serial (b # rest))"
| "serial _ = True"

subsection \<open>The queue in time\<close>

text \<open>
  The queue with its callers and the event loop. Requests are submitted at any time: to an
  idle queue, while a request is in flight, or while \<open>processQueue\<close> waits for its timer.
  After a call of \<open>processQueue\<close> at most one further call is pending: none when the queue
  went idle (\<open>NoCall\<close>); one that cannot run before a given time, when the timer ends or
  when the awaited request has settled (\<open>CallDue\<close>); and none ever when the awaited request
  never settles (\<open>Stuck\<close>).
\<close>

datatype continuation = NoCall | CallDue int | Stuck

record 'v eventLoop =
  requestQueue :: "(int \<Rightarrow> 'v promise) RequestQueue"
  admissions :: "'v served list"
  continuation :: continuation
  lastEvent :: int

text \<open>
  What follows a call of \<open>processQueue\<close> at time \<open>now\<close> that left \<open>act\<close> scheduled: an
  admitted request runs \<open>executeWithRetry\<close> from attempt 1 and is logged;
  \<open>processQueue\<close> awaits it before it calls \<^verbatim>\<open>setImmediate\<close>.
\<close>

definition schedule ::
  "int \<Rightarrow> (int \<Rightarrow> 'v promise) scheduled \<Rightarrow> (int \<Rightarrow> 'v promise) RequestQueue \<Rightarrow>
     'v served list \<Rightarrow> 'v eventLoop" where
  "schedule now act q log =
     (case act of
        Idle \<Rightarrow> \<lparr>requestQueue = q, admissions = log, continuation = NoCall, lastEvent = now\<rparr>
      | Defer w \<Rightarrow>
          \<lparr>requestQueue = q, admissions = log,
           continuation = CallDue (now + int (setTimeout_delay w)), lastEvent = now\<rparr>
      | Admit nextRequest \<Rightarrow>
          (case executeWithRetry (options q) nextRequest 1 of
             (p, n) \<Rightarrow>
               \<lparr>requestQueue = q,
                admissions = log @ [\<lparr>admittedAt = now, calls = n, outcome = p\<rparr>],
                continuation =
                  (case settleTime p of None \<Rightarrow> Stuck | Some d \<Rightarrow> CallDue (now + int d)),
                lastEvent = now\<rparr>))"

text \<open>
  A timed history: calls of \<open>enqueue\<close> and callbacks, each with its clock reading.
  \<open>replay\<close> runs it, and gives \<open>None\<close> for a list that is no history of the program:
  one in which the clock goes back, or in which a callback runs that is not pending or not
  yet due. An \<open>enqueue\<close> on a queue that is processing only pushes the request.
\<close>

fun replay ::
  "(int \<times> (int \<Rightarrow> 'v promise) event) list \<Rightarrow> 'v eventLoop \<Rightarrow> 'v eventLoop option" where
  "replay [] w = Some w"
| "replay ((now, ev) # evs) w =
     (if now < lastEvent w then None
      else case ev of
        Enqueue requestFn \<Rightarrow>
          (case enqueue now requestFn (requestQueue w) of
             (q', act) \<Rightarrow>
               if processing (requestQueue w)
               then replay evs (w\<lparr>requestQueue := q', lastEvent := now\<rparr>)
               else replay evs (schedule now act q' (admissions w)))
      | Callback \<Rightarrow>
          (case continuation w of
             CallDue due \<Rightarrow>
               if due \<le> now
               then (case processQueue now (requestQueue w) of
                       (q', act) \<Rightarrow> replay evs (schedule now act q' (admissions w)))
               else None
           | _ \<Rightarrow> None))"

definition newEventLoop :: "int option RateLimitOptions \<Rightarrow> int \<Rightarrow> 'v eventLoop" where
  "newEventLoop opts now =
     \<lparr>requestQueue = newRequestQueue opts, admissions = [], continuation = NoCall, lastEvent = now\<rparr>"

subsection \<open>Invariants\<close>

text \<open>The invariant of the rate window: the log holds no time later than the clock;
  the timestamps of the last 60 seconds are those the queue still stores; no window of
  60 seconds holds more than \<open>R\<close> admissions; and \<open>R\<close> is the queue's ceiling.\<close>

definition rate_inv :: "int \<Rightarrow> int \<Rightarrow> 'r RequestQueue \<Rightarrow> ('r \<times> int) list \<Rightarrow> bool" where
  "rate_inv R clock q log =
     ((\<forall>x \<in> set (map snd log). x \<le> clock) \<and>
      filter (\<lambda>x. clock - 60000 < x) (map snd log) =
        filter (\<lambda>x. clock - 60000 < x) (requestTimestamps q) \<and>
      (\<forall>t. int (windowCount t (map snd log)) \<le> R) \<and>
      maxRequestsPerMinute (options q) = R)"

text \<open>The last request of the log has completed by \<open>now\<close>.\<close>

definition settledBy :: "int \<Rightarrow> 'v served list \<Rightarrow> bool" where
  "settledBy now log =
     (log = [] \<or> (case completedAt (last log) of None \<Rightarrow> False | Some c \<Rightarrow> c \<le> now))"

text \<open>The timestamp \<open>processQueue\<close> has pushed for a request it has just admitted.\<close>

definition pendingStamp :: "'r scheduled \<Rightarrow> int \<Rightarrow> int list" where
  "pendingStamp act now = (case act of Admit r \<Rightarrow> [now] | _ \<Rightarrow> [])"

text \<open>The stored timestamps are the admission times later than some cut-off before \<open>now\<close>.\<close>

definition stampsOf :: "int \<Rightarrow> int list \<Rightarrow> int list \<Rightarrow> bool" where
  "stampsOf now stamps admitted = (\<exists>c. c < now \<and> stamps = filter (\<lambda>t. c < t) admitted)"

text \<open>While requests are submitted: a pending schedule keeps \<open>processing\<close> set, and the
  stored timestamps are those of the pending admission.\<close>

definition burst_inv :: "int \<Rightarrow> 'r RequestQueue \<Rightarrow> 'r scheduled \<Rightarrow> bool" where
  "burst_inv now q act =
     ((case act of Idle \<Rightarrow> True | _ \<Rightarrow> processing q) \<and>
      stampsOf now (requestTimestamps q) (pendingStamp act now))"

text \<open>
  Some history of callbacks at times from \<open>now\<close> on, with no submission, takes the queue
  from \<open>q\<close> with log \<open>LA\<close> to \<open>q'\<close> with the admission times \<open>stamps\<close>.
\<close>

definition replays ::
  "int \<Rightarrow> 'r RequestQueue \<Rightarrow> ('r \<times> int) list \<Rightarrow> 'r RequestQueue \<Rightarrow> int list \<Rightarrow> bool" where
  "replays now q LA q' stamps =
     (\<exists>evs LA'. sorted (map fst evs) \<and> (\<forall>t \<in> set (map fst evs). now \<le> t) \<and> enqueued evs = [] \<and>
        runEvents evs q LA = (q', LA') \<and> map snd LA' = stamps)"

text \<open>
  The invariant of a timed history: the log is serial, and the last request of the log
  has completed by the time the next call of \<open>processQueue\<close> can run (now, when the queue
  is idle).
\<close>

definition loop_inv :: "'v eventLoop \<Rightarrow> bool" where
  "loop_inv w =
     (serial (admissions w) \<and>
      (case continuation w of
         NoCall \<Rightarrow> settledBy (lastEvent w) (admissions w)
       | CallDue due \<Rightarrow> settledBy due (admissions w) \<and> processing (requestQueue w)
       | Stuck \<Rightarrow> processing (requestQueue w)))"

text \<open>The log entry of a request admitted at \<open>now\<close>.\<close>

definition servedAs :: "int RateLimitOptions \<Rightarrow> (int \<Rightarrow> 'v promise) \<times> int \<Rightarrow> 'v served" where
  "servedAs opts = (\<lambda>(requestFn, now).
     case executeWithRetry opts requestFn 1 of
       (p, n) \<Rightarrow> \<lparr>admittedAt = now, calls = n, outcome = p\<rparr>)"

section \<open>Lemmas about the batch runners and the queue\<close>

subsection \<open>Slices and batches\<close>

lemma js_slice_batch:
  "0 \<le> i \<Longrightarrow> i < int (length xs) \<Longrightarrow> 0 < m \<Longrightarrow>
     js_slice xs i (i + m) = take (nat m) (drop (nat i) xs)"
  by (auto simp: js_slice_def Let_def min_def take_all_iff intro!: arg_cong2[where f=take])

lemma set_js_slice: "set (js_slice xs a b) \<subseteq> set xs"
  by (auto simp: js_slice_def Let_def dest: in_set_takeD in_set_dropD)

lemma js_slice_nonpos: "i < 0 \<Longrightarrow> m \<le> 0 \<Longrightarrow> js_slice xs i (i + m) = []"
  by (auto simp: js_slice_def Let_def)

lemma js_slice_zero: "js_slice xs 0 0 = []"
  by (auto simp: js_slice_def Let_def)

lemma successes_append: "successes (xs @ ys) = successes xs @ successes ys"
  by (induction xs rule: successes.induct) auto

lemma rejections_append: "rejections (xs @ ys) = rejections xs @ rejections ys"
  by (induction xs rule: rejections.induct) auto

lemma syncThrown_append: "syncThrown (xs @ ys) = syncThrown xs @ syncThrown ys"
  by (induction xs rule: syncThrown.induct) auto

lemma returned_append: "returned (xs @ ys) = returned xs @ returned ys"
  by (induction xs rule: returned.induct) auto

lemma guarded_True: "guarded True p = p"
  by (cases p) auto

lemma firstRejection_guarded_False: "firstRejection (map (guarded False) ps) = None"
  by (induction ps rule: successes.induct) auto

lemma fulfilments_guarded_False:
  "Never \<notin> set ps \<Longrightarrow> \<exists>vs. fulfilments (map (guarded False) ps) = Some vs \<and>
      filter (\<lambda>r. r \<noteq> Null) vs = filter (\<lambda>r. r \<noteq> Null) (successes ps)"
  by (induction ps rule: successes.induct) auto

lemma promiseAll_guarded_False:
  assumes "Never \<notin> set ps"
  shows "\<exists>vs. promiseAll (map (guarded False) ps) = BatchResults vs \<and>
      filter (\<lambda>r. r \<noteq> Null) vs = filter (\<lambda>r. r \<noteq> Null) (successes ps)"
  using fulfilments_guarded_False[OF assms]
  by (auto simp: promiseAll_def firstRejection_guarded_False)

lemma mset_pushedErrors:
  "mset (pushedErrors ps) = mset (map (\<lambda>(d, e). toError e) (rejections ps))"
  by (simp add: pushedErrors_def)

lemma firstRejection_None_iff: "firstRejection ps = None \<longleftrightarrow> rejections ps = []"
  by (induction ps rule: firstRejection.induct) (auto split: option.splits)

lemma firstRejection_mem: "firstRejection ps = Some (d, e) \<Longrightarrow> Rejects d e \<in> set ps"
  by (induction ps arbitrary: d e rule: firstRejection.induct) (auto split: option.splits if_splits)

lemma fulfilments_settled:
  "Never \<notin> set ps \<Longrightarrow> rejections ps = [] \<Longrightarrow> fulfilments ps = Some (successes ps)"
  by (induction ps rule: successes.induct) auto

lemma successes_rejections_length:
  "Never \<notin> set ps \<Longrightarrow> length (successes ps) + length (rejections ps) = length ps"
  by (induction ps rule: successes.induct) auto

lemma syncThrown_returned_length: "length (syncThrown tasks) + length (returned tasks) = length tasks"
  by (induction tasks rule: syncThrown.induct) auto


lemma syncThrown_Nil_iff: "syncThrown tasks = [] \<longleftrightarrow> (\<forall>e. Throwing e \<notin> set tasks)"
  by (induction tasks rule: syncThrown.induct) auto

lemma syncThrown_mem: "e \<in> set (syncThrown tasks) \<longleftrightarrow> Throwing e \<in> set tasks"
  by (induction tasks rule: syncThrown.induct) auto

subsection \<open>The earliest rejection of a batch\<close>

text \<open>
  \<open>firstRejection\<close> gives the rejection that no other one precedes: none is earlier in
  time, and none that comes before it in the array has the same time.
\<close>

lemma rejections_mem: "(d, e) \<in> set (rejections ps) \<longleftrightarrow> Rejects d e \<in> set ps"
  by (induction ps rule: rejections.induct) auto

lemma firstRejection_least:
  "firstRejection ps = Some (d, e) \<Longrightarrow> Rejects d' e' \<in> set ps \<Longrightarrow> d \<le> d'"
proof (induction ps arbitrary: d e)
  case Nil
  then show ?case by simp
next
  case (Cons p ps)
  show ?case
  proof (cases p)
    case (Rejects d0 e0)
    show ?thesis
    proof (cases "firstRejection ps")
      case None
      then have "Rejects d' e' \<notin> set ps"
        using rejections_mem[of d' e' ps] by (simp add: firstRejection_None_iff)
      with Cons.prems Rejects None show ?thesis by auto
    next
      case (Some a)
      obtain d1 e1 where a: "a = (d1, e1)" by (cases a)
      have "d1 \<le> d'" if "Rejects d' e' \<in> set ps"
        using Cons.IH[of d1 e1] Some a that by simp
      with Cons.prems Rejects Some a show ?thesis by (auto split: if_splits)
    qed
  qed (use Cons in auto)
qed



subsection \<open>The loop\<close>

declare runBatches.simps [code]


text \<open>
  With \<open>abortOnError\<close> off and blocks that end with results, the loop returns what the
  blocks have gathered, batch after batch.
\<close>

lemma runBatches_partial:
  assumes "0 < m"
    and step: "\<And>b. set b \<subseteq> set tasks \<Longrightarrow>
          \<exists>vs es. tryBlock False b = TryResults vs es \<and>
            filter (\<lambda>r. r \<noteq> Null) vs = V b \<and> mset es = E b"
    and V: "V [] = []" "\<And>xs ys. V (xs @ ys) = V xs @ V ys"
    and E: "E [] = {#}" "\<And>xs ys. E (xs @ ys) = E xs + E ys"
  shows "0 \<le> i \<Longrightarrow> \<exists>es. runBatches tryBlock tasks m False i results errors =
           Some (Returns (results @ V (drop (nat i) tasks)) (errors @ es))
         \<and> mset es = E (drop (nat i) tasks)"
proof (induction "length tasks - nat i" arbitrary: i results errors rule: less_induct)
  case less
  show ?case
  proof (cases "i < int (length tasks)")
    case False
    then show ?thesis using less.prems V(1) E(1)
      by (subst runBatches.simps) simp
  next
    case True
    let ?batch = "take (nat m) (drop (nat i) tasks)"
    have sl: "js_slice tasks i (i + m) = ?batch"
      using js_slice_batch[OF less.prems True assms(1)] .
    have "set ?batch \<subseteq> set tasks"
      by (meson in_set_dropD in_set_takeD subsetI)
    from step[OF this] obtain vs ps where
      vs: "tryBlock False ?batch = TryResults vs ps"
          "filter (\<lambda>r. r \<noteq> Null) vs = V ?batch" "mset ps = E ?batch"
      by blast
    have dec: "length tasks - nat (i + m) < length tasks - nat i"
      using True less.prems assms(1) by linarith
    have nn: "0 \<le> i + m" using less.prems assms(1) by simp
    from less.hyps[OF dec nn, of "results @ V ?batch" "errors @ ps"]
    obtain es where es:
      "runBatches tryBlock tasks m False (i + m) (results @ V ?batch) (errors @ ps) =
         Some (Returns ((results @ V ?batch) @ V (drop (nat (i + m)) tasks)) ((errors @ ps) @ es))"
      "mset es = E (drop (nat (i + m)) tasks)"
      by blast
    have split: "drop (nat i) tasks = ?batch @ drop (nat (i + m)) tasks"
      using less.prems assms(1)
      by (metis add.commute append_take_drop_id drop_drop nat_add_distrib order_less_imp_le)
    have s: "V (drop (nat i) tasks) = V ?batch @ V (drop (nat (i + m)) tasks)"
      by (subst split) (simp only: V(2))
    have r: "E (drop (nat i) tasks) = E ?batch + E (drop (nat (i + m)) tasks)"
      by (subst split) (simp only: E(2))
    show ?thesis
      apply (subst runBatches.simps)
      apply (rule exI[where x = "ps @ es"])
      using True vs es s r
      by (simp add: sl Let_def)
  qed
qed

subsection \<open>A loop that does not advance\<close>

lemma runBatches_nonpositive:
  assumes "runBatches tryBlock tasks m abort i results errors = Some y"
  shows "(\<forall>a. \<exists>vs ps. tryBlock a [] = TryResults vs ps) \<longrightarrow> m \<le> 0 \<longrightarrow> i \<le> 0 \<longrightarrow> tasks \<noteq> [] \<longrightarrow>
       abort \<and> i = 0 \<and> m < 0 \<and>
       (\<exists>e. y = Throws e \<and> tryBlock True (js_slice tasks 0 m) = TryThrows e)"
proof (rule runBatches.raw_induct[where P = "\<lambda>tryBlock tasks m abort i results errors y.
         (\<forall>a. \<exists>vs ps. tryBlock a [] = TryResults vs ps) \<longrightarrow> m \<le> 0 \<longrightarrow> i \<le> 0 \<longrightarrow> tasks \<noteq> [] \<longrightarrow>
         abort \<and> i = 0 \<and> m < 0 \<and>
         (\<exists>e. y = Throws e \<and> tryBlock True (js_slice tasks 0 m) = TryThrows e)",
       OF _ assms], goal_cases)
  case (1 f tryBlock tasks m abort i results errors y)
  show ?case
  proof (intro impI)
    assume em: "\<forall>a. \<exists>vs ps. tryBlock a [] = TryResults vs ps"
      and m: "m \<le> 0" and i: "i \<le> 0" and ne: "tasks \<noteq> []"
    then have lt: "i < int (length tasks)" by (cases tasks) auto
    have rec: False if "f tryBlock tasks m abort (i + m) r' e' = Some y" for r' e'
    proof -
      from 1(1)[OF that] em m i ne have "i + m = 0 \<and> m < 0" by auto
      with i show False by simp
    qed
    let ?batch = "js_slice tasks i (i + m)"
    show "abort \<and> i = 0 \<and> m < 0 \<and>
       (\<exists>e. y = Throws e \<and> tryBlock True (js_slice tasks 0 m) = TryThrows e)"
    proof (cases "tryBlock abort ?batch")
      case (TryResults vs ps)
      with 1(2) lt rec show ?thesis by (auto simp: Let_def)
    next
      case TryPending
      with 1(2) lt show ?thesis by (simp add: Let_def)
    next
      case (TryThrows e)
      with 1(2) lt rec have ab: abort and y: "y = Throws e"
        by (auto simp: Let_def split: if_splits)
      have "?batch \<noteq> []"
      proof
        assume "?batch = []"
        with TryThrows have "tryBlock abort [] = TryThrows e" by simp
        with em show False by (metis try_outcome.distinct(1))
      qed
      then have "i = 0 \<and> m < 0" using m i js_slice_nonpos[of i m tasks] js_slice_zero[of tasks]
        by (cases "i < 0") (auto simp: order_le_less)
      with ab y TryThrows show ?thesis by auto
    qed
  qed
qed

subsection \<open>Blocks that end with results, and blocks that throw\<close>











subsection \<open>Runs with \<open>abortOnError\<close> off\<close>

lemma successes_Cons: "successes (p # ps) = successes [p] @ successes ps"
  by (cases p) auto

lemma successes_returned: "successes (map awaited tasks) = successes (returned tasks)"
proof (induction tasks rule: returned.induct)
  case (2 p tasks)
  then show ?case using successes_Cons[of p "map awaited tasks"] successes_Cons[of p "returned tasks"]
    by simp
qed auto

lemma never_awaited: "Never \<in> set (map awaited tasks) \<longleftrightarrow> Async Never \<in> set tasks"
proof (induction tasks)
  case Nil
  then show ?case by simp
next
  case (Cons task tasks)
  then show ?case by (cases task) auto
qed

lemma awaitedBatch_partial:
  assumes "Async Never \<notin> set b"
  shows "\<exists>vs es. awaitedBatch False b = TryResults vs es \<and>
      filter (\<lambda>r. r \<noteq> Null) vs = filter (\<lambda>r. r \<noteq> Null) (successes (returned b)) \<and>
      mset es = mset (map toError (syncThrown b)) +
                mset (map (\<lambda>(d, e). toError e) (rejections (returned b)))"
proof -
  have "Never \<notin> set (map awaited b)" using assms by (simp only: never_awaited not_False_eq_True)
  from promiseAll_guarded_False[OF this] obtain vs where
    vs: "promiseAll (map (guarded False) (map awaited b)) = BatchResults vs"
        "filter (\<lambda>r. r \<noteq> Null) vs = filter (\<lambda>r. r \<noteq> Null) (successes (map awaited b))"
    by blast
  from vs(1) have "promiseAll (map (\<lambda>task. guarded False (awaited task)) b) = BatchResults vs"
    by (simp add: comp_def)
  with vs(2) show ?thesis
    by (simp add: awaitedBatch_def successes_returned mset_pushedErrors)
qed

lemma never_raceTimeout: "Never \<notin> set (map (raceTimeout t err) ps)"
  by (auto simp: raceTimeout_def Let_def split: promise.splits if_splits)

lemma never_raceTimerFirst: "raceTimerFirst t err p \<noteq> Never"
  by (auto simp: raceTimerFirst_def Let_def split: promise.splits)

lemma racedBatch_partial:
  assumes "syncThrown b = []"
  shows "\<exists>vs es. racedBatch t False b = TryResults vs es \<and>
      filter (\<lambda>r. r \<noteq> Null) vs =
        filter (\<lambda>r. r \<noteq> Null) (successes (map (raceTimeout t (TaskTimedOut t)) (returned b))) \<and>
      mset es = mset (map (\<lambda>(d, e). toError e)
                  (rejections (map (raceTimeout t (TaskTimedOut t)) (returned b))))"
proof -
  let ?ps = "map (raceTimeout t (TaskTimedOut t)) (returned b)"
  from promiseAll_guarded_False[OF never_raceTimeout[of t "TaskTimedOut t" "returned b"]]
  obtain vs where
    vs: "promiseAll (map (guarded False) ?ps) = BatchResults vs"
        "filter (\<lambda>r. r \<noteq> Null) vs = filter (\<lambda>r. r \<noteq> Null) (successes ?ps)"
    by blast
  then show ?thesis using assms
    by (simp add: racedBatch_def mset_pushedErrors)
qed

text \<open>
  \<open>executeParallel\<close> with \<open>abortOnError\<close> off, when every promise settles: the results
  are the non-null values of the fulfilled promises in task order, and there is one error
  for each task that throws or is rejected.
\<close>

lemma executeParallel_partial:
  assumes "0 < mc" "Async Never \<notin> set tasks"
  shows "\<exists>es. executeParallel tasks (Some mc) (Some False) =
           Some (Returns (filter (\<lambda>r. r \<noteq> Null) (successes (returned tasks))) es)
         \<and> mset es = mset (map toError (syncThrown tasks)) +
                     mset (map (\<lambda>(d, e). toError e) (rejections (returned tasks)))"
proof -
  let ?V = "\<lambda>b :: 'a task list. filter (\<lambda>r. r \<noteq> Null) (successes (returned b))"
  let ?E = "\<lambda>b :: 'a task list. mset (map toError (syncThrown b)) +
                mset (map (\<lambda>(d, e). toError e) (rejections (returned b)))"
  have "\<exists>es. runBatches awaitedBatch tasks mc False 0 [] [] =
           Some (Returns ([] @ ?V (drop (nat 0) tasks)) ([] @ es))
         \<and> mset es = ?E (drop (nat 0) tasks)"
  proof (rule runBatches_partial[where V = ?V and E = ?E])
    show "0 < mc" by (rule assms(1))
    show "\<exists>vs es. awaitedBatch False b = TryResults vs es \<and>
            filter (\<lambda>r. r \<noteq> Null) vs = ?V b \<and> mset es = ?E b" if "set b \<subseteq> set tasks" for b
      using awaitedBatch_partial[of b] that assms(2) by blast
  qed (simp_all add: returned_append successes_append syncThrown_append rejections_append)
  then show ?thesis by (simp add: executeParallel_def)
qed

text \<open>
  \<open>executeParallelTasks\<close> with \<open>abortOnError\<close> off, when no task throws as it is called:
  the same for the promises raced against the timer, which all settle.
\<close>

lemma executeParallelTasks_partial:
  assumes "0 < mc" "syncThrown tasks = []"
  shows "\<exists>es. executeParallelTasks tasks
             \<lparr>maxConcurrent = Some mc, abortOnError = Some False, timeoutMs = Some t\<rparr> =
           Some (Returns (filter (\<lambda>r. r \<noteq> Null)
             (successes (map (raceTimeout t (TaskTimedOut t)) (returned tasks)))) es)
         \<and> mset es = mset (map (\<lambda>(d, e). toError e)
                       (rejections (map (raceTimeout t (TaskTimedOut t)) (returned tasks))))"
proof -
  let ?V = "\<lambda>b :: 'a task list. filter (\<lambda>r. r \<noteq> Null)
      (successes (map (raceTimeout t (TaskTimedOut t)) (returned b)))"
  let ?E = "\<lambda>b :: 'a task list. mset (map (\<lambda>(d, e). toError e)
      (rejections (map (raceTimeout t (TaskTimedOut t)) (returned b))))"
  have "\<exists>es. runBatches (racedBatch t) tasks mc False 0 [] [] =
           Some (Returns ([] @ ?V (drop (nat 0) tasks)) ([] @ es))
         \<and> mset es = ?E (drop (nat 0) tasks)"
  proof (rule runBatches_partial[where V = ?V and E = ?E])
    show "0 < mc" by (rule assms(1))
    show "\<exists>vs es. racedBatch t False b = TryResults vs es \<and>
            filter (\<lambda>r. r \<noteq> Null) vs = ?V b \<and> mset es = ?E b" if "set b \<subseteq> set tasks" for b
    proof -
      from that assms(2) have "syncThrown b = []" by (auto simp: syncThrown_Nil_iff)
      from racedBatch_partial[OF this, of t] show ?thesis .
    qed
  qed (simp_all add: returned_append successes_append rejections_append)
  then show ?thesis by (simp add: executeParallelTasks_def)
qed

lemma withTimeout_settles:
  "Async Never \<notin> set (map (withTimeout t) tasks) \<and> syncThrown (map (withTimeout t) tasks) = []"
proof (induction tasks)
  case Nil
  then show ?case by simp
next
  case (Cons task tasks)
  then show ?case
    using never_raceTimerFirst[of t "PlainError ''Task execution timed out''"]
    by (cases task) (auto simp: eq_commute[of Never])
qed

lemma client_executeParallel_partial:
  assumes "0 < m"
  shows "\<exists>es. client_executeParallel cfg tasks
             (Some \<lparr>maxConcurrent = Some m, abortOnError = Some False, timeoutMs = Some t\<rparr>) =
           Some (Returns (filter (\<lambda>r. r \<noteq> Null)
             (successes (returned (map (withTimeout t) tasks)))) es)
         \<and> mset es = mset (map (\<lambda>(d, e). toError e)
             (rejections (returned (map (withTimeout t) tasks))))"
  using executeParallel_partial[OF assms, of "map (withTimeout t) tasks"] withTimeout_settles[of t tasks]
  by (simp add: client_executeParallel_def Let_def)

subsection \<open>Timeouts\<close>

lemma raceTimeout_late:
  "0 < t \<Longrightarrow> late t p \<Longrightarrow> raceTimeout t err p = Rejects (setTimeout_delay (Some t)) (Err err)"
  by (auto simp: late_def raceTimeout_def setTimeout_delay_def Let_def split: promise.splits)

lemma raceTimerFirst_late:
  "0 < t \<Longrightarrow> late t p \<Longrightarrow> raceTimerFirst t err p = Rejects (setTimeout_delay (Some t)) (Err err)"
  by (auto simp: late_def raceTimerFirst_def setTimeout_delay_def Let_def split: promise.splits)

text \<open>
  A promise that settles in the millisecond in which its timer fires: in
  \<open>executeParallelTasks\<close>, which calls the task before it sets the timer, the promise
  wins; in the client wrapper, which sets the timer first, the timer wins.
\<close>

lemma race_at_the_limit:
  "0 < t \<Longrightarrow> t \<le> 2147483647 \<Longrightarrow>
     raceTimeout t err (Fulfils (nat t) v) = Fulfils (nat t) v \<and>
     raceTimerFirst t err (Fulfils (nat t) v) = Rejects (nat t) (Err err)"
  by (simp add: raceTimeout_def raceTimerFirst_def setTimeout_delay_def)

lemma timeout_at_the_limit:
  "executeParallelTasks [Async (Fulfils 50 (Val ''A''))]
     \<lparr>maxConcurrent = Some 2, abortOnError = Some False, timeoutMs = Some 50\<rparr> =
     Some (Returns [Val ''A''] []) \<and>
   client_executeParallel None [Async (Fulfils 50 (Val ''A''))]
     (Some \<lparr>maxConcurrent = Some 2, abortOnError = Some False, timeoutMs = Some 50\<rparr>) =
     Some (Returns [] [PlainError ''Task execution timed out''])"
  by code_simp

lemma count_timeouts:
  assumes "\<And>p. late t p \<Longrightarrow> f p = Rejects T (Err err)"
  shows "length (filter (late t) ps) \<le>
     count (mset (map (\<lambda>(d, e). toError e) (rejections (map f ps)))) err"
proof (induction ps)
  case Nil
  then show ?case by simp
next
  case (Cons p ps)
  show ?case
  proof (cases "late t p")
    case True
    then show ?thesis using Cons assms[of p] by simp
  next
    case False
    have "count (mset (map (\<lambda>(d, e). toError e) (rejections (map f ps)))) err
        \<le> count (mset (map (\<lambda>(d, e). toError e) (rejections (f p # map f ps)))) err"
      by (cases "f p") auto
    then show ?thesis using Cons False by simp
  qed
qed

lemma successes_on_time:
  assumes "\<And>p. late t p \<Longrightarrow> f p = Rejects T (Err err)"
  shows "length (successes (map f ps)) \<le> length (filter (\<lambda>p. \<not> late t p) ps)"
proof (induction ps)
  case Nil
  then show ?case by simp
next
  case (Cons p ps)
  show ?case
  proof (cases "late t p")
    case True
    then show ?thesis using Cons assms[of p] by simp
  next
    case False
    have "length (successes (f p # map f ps)) \<le> Suc (length (successes (map f ps)))"
      by (cases "f p") auto
    then show ?thesis using Cons False by simp
  qed
qed

text \<open>
  When no task throws as it is called, a run of \<open>executeParallelTasks\<close> with
  \<open>abortOnError\<close> off collects a timeout error for every promise that is late, and returns
  at most one result for each promise that is not.
\<close>

lemma executeParallelTasks_timeouts:
  assumes "0 < t" "0 < m" "syncThrown tasks = []"
  shows "\<exists>rs es. executeParallelTasks tasks
             \<lparr>maxConcurrent = Some m, abortOnError = Some False, timeoutMs = Some t\<rparr> =
           Some (Returns rs es) \<and>
         length rs \<le> length (filter (\<lambda>p. \<not> late t p) (returned tasks)) \<and>
         length (filter (late t) (returned tasks)) \<le> count (mset es) (TaskTimedOut t)"
proof -
  let ?f = "raceTimeout t (TaskTimedOut t) :: 'a js promise \<Rightarrow> 'a js promise"
  from executeParallelTasks_partial[OF assms(2,3), of t] obtain es where es:
    "executeParallelTasks tasks \<lparr>maxConcurrent = Some m, abortOnError = Some False, timeoutMs = Some t\<rparr> =
       Some (Returns (filter (\<lambda>r. r \<noteq> Null) (successes (map ?f (returned tasks)))) es)"
    "mset es = mset (map (\<lambda>(d, e). toError e) (rejections (map ?f (returned tasks))))"
    by blast
  have l: "?f p = Rejects (setTimeout_delay (Some t)) (Err (TaskTimedOut t))" if "late t p" for p
    using raceTimeout_late[OF assms(1) that] .
  have "length (filter (late t) (returned tasks)) \<le> count (mset es) (TaskTimedOut t)"
    unfolding es(2) using l by (rule count_timeouts)
  moreover have "length (successes (map ?f (returned tasks)))
      \<le> length (filter (\<lambda>p. \<not> late t p) (returned tasks))"
    using l by (rule successes_on_time)
  then have "length (filter (\<lambda>r. r \<noteq> Null) (successes (map ?f (returned tasks))))
      \<le> length (filter (\<lambda>p. \<not> late t p) (returned tasks))"
    using length_filter_le[of "\<lambda>r. r \<noteq> Null" "successes (map ?f (returned tasks))"] by linarith
  ultimately show ?thesis using es(1) by blast
qed

subsection \<open>What a block throws\<close>

lemma awaited_Rejects:
  "awaited task = Rejects d e \<Longrightarrow> task = Async (Rejects d e) \<or> task = Throwing e"
  by (cases task) auto

lemma awaitedBatch_throws:
  assumes "awaitedBatch True b = TryThrows e"
  shows "Throwing e \<in> set b \<or> (\<exists>d. Async (Rejects d e) \<in> set b)"
proof (cases "syncThrown b")
  case (Cons e' rest)
  with assms have "e' = e" by (simp add: awaitedBatch_def)
  with Cons syncThrown_mem[of e b] show ?thesis by simp
next
  case Nil
  with assms obtain d where "firstRejection (map awaited b) = Some (d, e)"
    by (auto simp: awaitedBatch_def promiseAll_def guarded_True split: option.splits)
  from firstRejection_mem[OF this] obtain task where "task \<in> set b" "awaited task = Rejects d e"
    by auto
  with awaited_Rejects[of task d e] show ?thesis by auto
qed

lemma raceTimeout_Rejects:
  "raceTimeout t err p = Rejects d e \<Longrightarrow> p = Rejects d e \<or> e = Err err"
  by (cases p) (auto simp: raceTimeout_def Let_def split: if_splits)

lemma returned_mem: "p \<in> set (returned tasks) \<longleftrightarrow> Async p \<in> set tasks"
  by (induction tasks rule: returned.induct) auto

lemma racedBatch_throws:
  assumes "racedBatch t True b = TryThrows e"
  shows "Throwing e \<in> set b \<or> (\<exists>d. Async (Rejects d e) \<in> set b) \<or> e = Err (TaskTimedOut t)"
proof (cases "syncThrown b")
  case (Cons e' rest)
  with assms have "e' = e" by (simp add: racedBatch_def)
  with Cons syncThrown_mem[of e b] show ?thesis by simp
next
  case Nil
  with assms obtain d where
    "firstRejection (map (raceTimeout t (TaskTimedOut t)) (returned b)) = Some (d, e)"
    by (auto simp: racedBatch_def promiseAll_def guarded_True[abs_def] Let_def split: option.splits)
  from firstRejection_mem[OF this] obtain p where
    "p \<in> set (returned b)" "raceTimeout t (TaskTimedOut t) p = Rejects d e"
    by auto
  with raceTimeout_Rejects[of t "TaskTimedOut t" p d e] show ?thesis
    by (auto simp: returned_mem)
qed

lemma awaitedBatch_Nil: "\<exists>vs ps. awaitedBatch a [] = TryResults vs ps"
  by (simp add: awaitedBatch_def promiseAll_def)

lemma racedBatch_Nil: "\<exists>vs ps. racedBatch t a [] = TryResults vs ps"
  by (simp add: racedBatch_def promiseAll_def)

subsection \<open>Counting results and errors\<close>

lemma successes_raceTimeout:
  "set (successes (map (raceTimeout t err) ps)) \<subseteq> set (successes ps)"
  by (induction ps rule: successes.induct) (auto simp: raceTimeout_def Let_def)

text \<open>
  With \<open>abortOnError\<close> off, every task adds one result or one error, as long as no
  promise fulfils with \<^verbatim>\<open>null\<close>, every promise settles (in \<open>executeParallel\<close>, which
  has no timer) and no task throws as it is called (in \<open>executeParallelTasks\<close>, which
  calls the tasks outside its handlers).
\<close>

lemma executeParallel_count:
  assumes "0 < mc" "Async Never \<notin> set tasks" "Null \<notin> set (successes (returned tasks))"
  shows "\<exists>rs es. executeParallel tasks (Some mc) (Some False) = Some (Returns rs es) \<and>
           length rs + length es = length tasks"
proof -
  from executeParallel_partial[OF assms(1,2)] obtain es where es:
    "executeParallel tasks (Some mc) (Some False) =
       Some (Returns (filter (\<lambda>r. r \<noteq> Null) (successes (returned tasks))) es)"
    "mset es = mset (map toError (syncThrown tasks)) +
               mset (map (\<lambda>(d, e). toError e) (rejections (returned tasks)))"
    by blast
  have "filter (\<lambda>r. r \<noteq> Null) (successes (returned tasks)) = successes (returned tasks)"
    using assms(3) by (auto intro: filter_True)
  moreover have "size (mset es) = length (syncThrown tasks) + length (rejections (returned tasks))"
    unfolding es(2) by simp
  then have "length es = length (syncThrown tasks) + length (rejections (returned tasks))"
    by simp
  moreover have "Never \<notin> set (returned tasks)" using assms(2) by (simp add: returned_mem)
  then have "length (successes (returned tasks)) + length (rejections (returned tasks)) =
      length (returned tasks)"
    by (rule successes_rejections_length)
  ultimately show ?thesis
    using es(1) syncThrown_returned_length[of tasks] by auto
qed

lemma executeParallelTasks_count:
  assumes "0 < mc" "syncThrown tasks = []" "Null \<notin> set (successes (returned tasks))"
  shows "\<exists>rs es. executeParallelTasks tasks
             \<lparr>maxConcurrent = Some mc, abortOnError = Some False, timeoutMs = Some t\<rparr> =
           Some (Returns rs es) \<and>
         length rs + length es = length tasks"
proof -
  let ?raced = "map (raceTimeout t (TaskTimedOut t)) (returned tasks)"
  from executeParallelTasks_partial[OF assms(1,2), of t] obtain es where es:
    "executeParallelTasks tasks \<lparr>maxConcurrent = Some mc, abortOnError = Some False, timeoutMs = Some t\<rparr> =
       Some (Returns (filter (\<lambda>r. r \<noteq> Null) (successes ?raced)) es)"
    "mset es = mset (map (\<lambda>(d, e). toError e) (rejections ?raced))"
    by blast
  have "Null \<notin> set (successes ?raced)"
    using assms(3) successes_raceTimeout[of t "TaskTimedOut t" "returned tasks"] by auto
  then have "filter (\<lambda>r. r \<noteq> Null) (successes ?raced) = successes ?raced"
    by (auto intro: filter_True)
  moreover have "size (mset es) = length (rejections ?raced)"
    unfolding es(2) by simp
  then have "length es = length (rejections ?raced)" by simp
  moreover have "length (successes ?raced) + length (rejections ?raced) = length ?raced"
    by (rule successes_rejections_length) (rule never_raceTimeout)
  ultimately show ?thesis
    using es(1) syncThrown_returned_length[of tasks] assms(2) by auto
qed

text \<open>
  The client wrapper with \<open>abortOnError\<close> off collects a timeout error for every promise
  that is late, whatever the other tasks do.
\<close>

lemma count_timeouts_client:
  "0 < t \<Longrightarrow> length (filter (late t) (returned tasks)) \<le>
     count (mset (map (\<lambda>(d, e). toError e) (rejections (returned (map (withTimeout t) tasks)))))
       (PlainError ''Task execution timed out'')"
proof (induction tasks)
  case Nil
  then show ?case by simp
next
  case (Cons task tasks)
  show ?case
  proof (cases task)
    case (Throwing e)
    then show ?thesis using Cons by simp
  next
    case (Async p)
    show ?thesis
    proof (cases "late t p")
      case True
      then show ?thesis using Cons Async by (simp add: raceTimerFirst_late)
    next
      case False
      let ?f = "raceTimerFirst t (PlainError ''Task execution timed out'')"
      let ?rest = "returned (map (withTimeout t) tasks)"
      have "count (mset (map (\<lambda>(d, e). toError e) (rejections ?rest)))
            (PlainError ''Task execution timed out'')
          \<le> count (mset (map (\<lambda>(d, e). toError e) (rejections (?f p # ?rest))))
            (PlainError ''Task execution timed out'')"
        by (cases "?f p") auto
      then show ?thesis using Cons Async False by simp
    qed
  qed
qed

lemma client_executeParallel_timeouts:
  assumes "0 < t" "0 < m"
  shows "\<exists>rs es. client_executeParallel cfg tasks
             (Some \<lparr>maxConcurrent = Some m, abortOnError = Some False, timeoutMs = Some t\<rparr>) =
           Some (Returns rs es) \<and>
         length (filter (late t) (returned tasks))
           \<le> count (mset es) (PlainError ''Task execution timed out'')"
proof -
  from client_executeParallel_partial[OF assms(2), of cfg tasks t] obtain es where es:
    "client_executeParallel cfg tasks
       (Some \<lparr>maxConcurrent = Some m, abortOnError = Some False, timeoutMs = Some t\<rparr>) =
       Some (Returns (filter (\<lambda>r. r \<noteq> Null) (successes (returned (map (withTimeout t) tasks)))) es)"
    "mset es = mset (map (\<lambda>(d, e). toError e) (rejections (returned (map (withTimeout t) tasks))))"
    by blast
  have "length (filter (late t) (returned tasks))
      \<le> count (mset es) (PlainError ''Task execution timed out'')"
    unfolding es(2) using assms(1) by (rule count_timeouts_client)
  with es(1) show ?thesis by blast
qed

subsection \<open>Retries\<close>

lemma executeWithRetry_other:
  assumes "requestFn attempt = Rejects d e" "\<not> isRateLimit e"
  shows "executeWithRetry opts requestFn attempt = (Rejects d e, 1)"
  using assms by (subst executeWithRetry.simps) simp

lemma executeWithRetry_fulfils:
  assumes "requestFn attempt = Fulfils d v"
  shows "executeWithRetry opts requestFn attempt = (Fulfils d v, 1)"
  using assms by (subst executeWithRetry.simps) simp

lemma executeWithRetry_rate_limited:
  "\<forall>a. \<exists>d e. requestFn a = Rejects d e \<and> isRateLimit e \<Longrightarrow>
   requestFn (retryCount opts + 1) = Rejects d' e' \<Longrightarrow>
   attempt \<le> retryCount opts + 1 \<Longrightarrow>
     snd (executeWithRetry opts requestFn attempt) = nat (retryCount opts + 2 - attempt) \<and>
     (\<exists>D. fst (executeWithRetry opts requestFn attempt) = Rejects D e')"
proof (induction opts requestFn attempt rule: executeWithRetry.induct)
  case (1 opts requestFn attempt)
  from 1(2) obtain d e where r: "requestFn attempt = Rejects d e" "isRateLimit e" by blast
  show ?case
  proof (cases "attempt > retryCount opts")
    case True
    then have "attempt = retryCount opts + 1" using 1(4) by simp
    then show ?thesis using r True 1(3)
      by (subst executeWithRetry.simps, subst (2) executeWithRetry.simps) auto
  next
    case False
    then have le: "attempt + 1 \<le> retryCount opts + 1" by simp
    have c: "\<not> (\<not> isRateLimit e \<or> retryCount opts < attempt)" using r False by simp
    from 1(1)[OF r(1) c refl 1(2) 1(3) le]
    have IH: "snd (executeWithRetry opts requestFn (attempt + 1)) = nat (retryCount opts + 2 - (attempt + 1))"
      and IH2: "\<exists>D. fst (executeWithRetry opts requestFn (attempt + 1)) = Rejects D e'"
      by auto
    obtain p n where pn: "executeWithRetry opts requestFn (attempt + 1) = (p, n)"
      by (cases "executeWithRetry opts requestFn (attempt + 1)")
    have eq: "executeWithRetry opts requestFn attempt =
        (delayed (d + setTimeout_delay (Some (retryDelayMs opts * attempt))) p, Suc n)"
      using r False pn by (subst executeWithRetry.simps) (simp add: Let_def)
    have "Suc n = nat (retryCount opts + 2 - attempt)" using IH pn False by simp
    moreover have "\<exists>D. fst (executeWithRetry opts requestFn attempt) = Rejects D e'"
      using IH2 pn eq by auto
    ultimately show ?thesis using eq by simp
  qed
qed

subsection \<open>Admission order\<close>

lemma processQueue_cases:
  obtains (idle) "queue q = []" "processQueue now q = (q\<lparr>processing := False\<rparr>, Idle)"
  | (wait) w where "queue q \<noteq> []"
      "int (length (filter (\<lambda>x. now - 60000 < x) (requestTimestamps q))) \<ge> maxRequestsPerMinute (options q)"
      "processQueue now q = (q\<lparr>processing := True,
          requestTimestamps := filter (\<lambda>x. now - 60000 < x) (requestTimestamps q)\<rparr>, Defer w)"
  | (admit) r rest where "queue q = r # rest"
      "int (length (filter (\<lambda>x. now - 60000 < x) (requestTimestamps q))) < maxRequestsPerMinute (options q)"
      "processQueue now q = (q\<lparr>processing := True, queue := rest,
          requestTimestamps := filter (\<lambda>x. now - 60000 < x) (requestTimestamps q) @ [now]\<rparr>, Admit r)"
proof (cases "queue q")
  case Nil
  then show ?thesis using idle by (simp add: processQueue_def)
next
  case (Cons r rest)
  show ?thesis
  proof (cases "int (length (filter (\<lambda>x. now - 60000 < x) (requestTimestamps q))) \<ge> maxRequestsPerMinute (options q)")
    case True
    then show ?thesis using Cons wait by (simp add: processQueue_def Let_def)
  next
    case False
    then show ?thesis using Cons admit[of r rest] by (simp add: processQueue_def Let_def)
  qed
qed

lemma processQueue_fifo:
  assumes "processQueue now q = (q', act)"
  shows "map fst (noteAdmission now act log) @ queue q' = map fst log @ queue q"
  by (rule processQueue_cases[where q=q and now=now]) (use assms in \<open>auto simp: noteAdmission_def\<close>)

lemma enqueue_fifo:
  assumes "enqueue now r q = (q', act)"
  shows "map fst (noteAdmission now act log) @ queue q' = map fst log @ queue q @ [r]"
proof (cases "processing q")
  case True
  then show ?thesis using assms by (auto simp: enqueue_def Let_def noteAdmission_def)
next
  case False
  then have "processQueue now (q\<lparr>queue := queue q @ [r]\<rparr>) = (q', act)"
    using assms by (simp add: enqueue_def Let_def)
  from processQueue_fifo[OF this, of log] show ?thesis by simp
qed

lemma fire_fifo:
  assumes "fire now ev q = (q', act)"
  shows "map fst (noteAdmission now act log) @ queue q' = map fst log @ queue q @ enqueued [(now, ev)]"
  using assms enqueue_fifo[of now _ q q' act log] processQueue_fifo[of now q q' act log]
  by (cases ev) (auto simp: fire_def enqueued_def)

lemma enqueued_Cons: "enqueued (x # evs) = enqueued [x] @ enqueued evs"
  by (simp add: enqueued_def)

lemma runEvents_fifo:
  "runEvents evs q log = (q', log') \<Longrightarrow> map fst log' @ queue q' = map fst log @ queue q @ enqueued evs"
proof (induction evs arbitrary: q log)
  case Nil
  then show ?case by (simp add: enqueued_def)
next
  case (Cons x evs)
  obtain now ev where x: "x = (now, ev)" by (cases x)
  obtain q1 act where st: "fire now ev q = (q1, act)" by (cases "fire now ev q")
  from Cons.prems x st have "runEvents evs q1 (noteAdmission now act log) = (q', log')" by simp
  from Cons.IH[OF this] fire_fifo[OF st, of log]
  show ?case unfolding x enqueued_Cons[of "(now, ev)" evs] by simp
qed

lemma noteAdmission_cases:
  "noteAdmission now act log = log \<or> (\<exists>r. noteAdmission now act log = log @ [(r, now)])"
  by (cases act) (auto simp: noteAdmission_def)

lemma runEvents_sorted:
  "runEvents evs q log = (q', log') \<Longrightarrow> sorted (map fst evs) \<Longrightarrow> sorted (map snd log) \<Longrightarrow>
     (\<forall>x \<in> set (map snd log). \<forall>t \<in> set (map fst evs). x \<le> t) \<Longrightarrow> sorted (map snd log')"
proof (induction evs arbitrary: q log)
  case Nil
  then show ?case by simp
next
  case (Cons x evs)
  obtain now ev where x: "x = (now, ev)" by (cases x)
  obtain q1 act where st: "fire now ev q = (q1, act)" by (cases "fire now ev q")
  let ?log1 = "noteAdmission now act log"
  from Cons.prems(1) x st have run: "runEvents evs q1 ?log1 = (q', log')" by simp
  have s1: "sorted (map snd ?log1)"
    using noteAdmission_cases[of now act log] Cons.prems(3,4) x by (auto simp: sorted_append)
  have b1: "\<forall>x \<in> set (map snd ?log1). \<forall>t \<in> set (map fst evs). x \<le> t"
    using noteAdmission_cases[of now act log] Cons.prems(2,4) x by fastforce
  from Cons.IH[OF run _ s1 b1] Cons.prems(2) show ?case by simp
qed

subsection \<open>The rate window\<close>

lemma length_filter_mono:
  "(\<And>x. x \<in> set xs \<Longrightarrow> P x \<Longrightarrow> Q x) \<Longrightarrow> length (filter P xs) \<le> length (filter Q xs)"
  by (induction xs) auto

lemma rate_inv_later:
  assumes "rate_inv R clock q log" "clock \<le> now"
  shows "rate_inv R now q log"
proof -
  have f: "filter (\<lambda>x. now - 60000 < x) xs = filter (\<lambda>x. now - 60000 < x) (filter (\<lambda>x. clock - 60000 < x) xs)" for xs
    using assms(2) by (induction xs) auto
  have "filter (\<lambda>x. now - 60000 < x) (map snd log) = filter (\<lambda>x. now - 60000 < x) (requestTimestamps q)"
    using assms(1) f[of "map snd log"] f[of "requestTimestamps q"] by (simp add: rate_inv_def)
  then show ?thesis using assms by (fastforce simp: rate_inv_def)
qed

lemma rate_inv_processQueue:
  assumes inv: "rate_inv R now q log" and st: "processQueue now q = (q', act)"
  shows "rate_inv R now q' (noteAdmission now act log)"
proof (rule processQueue_cases[where q=q and now=now])
  assume "queue q = []" "processQueue now q = (q\<lparr>processing := False\<rparr>, Idle)"
  then show ?thesis using inv st by (auto simp: rate_inv_def noteAdmission_def)
next
  fix w
  assume "processQueue now q = (q\<lparr>processing := True,
          requestTimestamps := filter (\<lambda>x. now - 60000 < x) (requestTimestamps q)\<rparr>, Defer w)"
  then show ?thesis using inv st by (auto simp: rate_inv_def noteAdmission_def)
next
  fix r rest
  assume lt: "int (length (filter (\<lambda>x. now - 60000 < x) (requestTimestamps q))) < maxRequestsPerMinute (options q)"
    and pq: "processQueue now q = (q\<lparr>processing := True, queue := rest,
          requestTimestamps := filter (\<lambda>x. now - 60000 < x) (requestTimestamps q) @ [now]\<rparr>, Admit r)"
  let ?stamps = "map snd log"
  from pq st have q': "q' = q\<lparr>processing := True, queue := rest,
          requestTimestamps := filter (\<lambda>x. now - 60000 < x) (requestTimestamps q) @ [now]\<rparr>"
    and act: "act = Admit r" by auto
  have log': "map snd (noteAdmission now act log) = ?stamps @ [now]"
    by (simp add: act noteAdmission_def)
  from inv have a: "\<forall>x \<in> set ?stamps. x \<le> now"
    and b: "filter (\<lambda>x. now - 60000 < x) ?stamps = filter (\<lambda>x. now - 60000 < x) (requestTimestamps q)"
    and c: "\<And>t. int (windowCount t ?stamps) \<le> R"
    and d: "maxRequestsPerMinute (options q) = R"
    by (auto simp: rate_inv_def)
  have c': "int (windowCount t (?stamps @ [now])) \<le> R" for t
  proof (cases "now \<le> t")
    case False
    then have "windowCount t (?stamps @ [now]) = windowCount t ?stamps"
      by (simp add: windowCount_def)
    then show ?thesis using c[of t] by simp
  next
    case True
    have "windowCount t (?stamps @ [now]) \<le> length (filter (\<lambda>x. now - 60000 < x) (?stamps @ [now]))"
      unfolding windowCount_def using True by (intro length_filter_mono) auto
    also have "\<dots> = Suc (length (filter (\<lambda>x. now - 60000 < x) (requestTimestamps q)))"
      using b by simp
    finally show ?thesis using lt d by simp
  qed
  show ?thesis
    unfolding rate_inv_def log' using a b c' d by (simp add: q')
qed

lemma rate_inv_enqueue:
  assumes inv: "rate_inv R now q log" and st: "enqueue now r q = (q', act)"
  shows "rate_inv R now q' (noteAdmission now act log)"
proof (cases "processing q")
  case True
  then show ?thesis using inv st by (auto simp: enqueue_def Let_def noteAdmission_def rate_inv_def)
next
  case False
  then have pq: "processQueue now (q\<lparr>queue := queue q @ [r]\<rparr>) = (q', act)"
    using st by (simp add: enqueue_def Let_def)
  have "rate_inv R now (q\<lparr>queue := queue q @ [r]\<rparr>) log"
    using inv by (simp add: rate_inv_def)
  from rate_inv_processQueue[OF this pq] show ?thesis .
qed

lemma rate_inv_fire:
  assumes "rate_inv R now q log" "fire now ev q = (q', act)"
  shows "rate_inv R now q' (noteAdmission now act log)"
  using assms rate_inv_enqueue rate_inv_processQueue by (cases ev) (auto simp: fire_def)

lemma rate_inv_runEvents:
  "runEvents evs q log = (q', log') \<Longrightarrow> sorted (map fst evs) \<Longrightarrow> rate_inv R clock q log \<Longrightarrow>
     (\<forall>t \<in> set (map fst evs). clock \<le> t) \<Longrightarrow> \<exists>clock'. rate_inv R clock' q' log'"
proof (induction evs arbitrary: q log clock)
  case Nil
  then show ?case by auto
next
  case (Cons x evs)
  obtain now ev where x: "x = (now, ev)" by (cases x)
  obtain q1 act where st: "fire now ev q = (q1, act)" by (cases "fire now ev q")
  from Cons.prems(1) x st have run: "runEvents evs q1 (noteAdmission now act log) = (q', log')" by simp
  have "rate_inv R now q log" using rate_inv_later[OF Cons.prems(3)] Cons.prems(4) x by simp
  from rate_inv_fire[OF this st] have i1: "rate_inv R now q1 (noteAdmission now act log)" .
  from Cons.IH[OF run _ i1] Cons.prems(2) x show ?case by simp
qed

lemma rate_inv_init:
  "rate_inv (js_or (maxRequestsPerMinute opts) 60) clock (newRequestQueue opts) []"
  if "0 \<le> js_or (maxRequestsPerMinute opts) 60"
  using that by (simp add: rate_inv_def newRequestQueue_def windowCount_def)

subsection \<open>Draining a burst\<close>

lemma serial_snoc:
  "serial (log @ [e]) \<longleftrightarrow>
     serial log \<and> (log = [] \<or> (case completedAt (last log) of None \<Rightarrow> False | Some c \<Rightarrow> c \<le> admittedAt e))"
  by (induction log rule: serial.induct) auto

lemma settledBy_later: "settledBy now log \<Longrightarrow> now \<le> now' \<Longrightarrow> settledBy now' log"
  by (auto simp: settledBy_def split: option.splits)

lemma serial_drain:
  "serial log \<Longrightarrow> settledBy now log \<Longrightarrow> serial (snd (afterProcessQueue fuel now act q log))"
  "serial log \<Longrightarrow> settledBy now log \<Longrightarrow> serial (snd (callProcessQueue fuel now q log))"
proof (induction fuel now act q log and fuel now q log rule: afterProcessQueue_callProcessQueue.induct)
  case (1 fuel now q log)
  then show ?case by simp
next
  case (2 fuel now w q log)
  then show ?case using settledBy_later[of now log "now + int (setTimeout_delay w)"] by simp
next
  case (3 fuel now r q log)
  obtain p n where pn: "executeWithRetry (options q) r 1 = (p, n)"
    by (cases "executeWithRetry (options q) r 1")
  let ?e = "\<lparr>admittedAt = now, calls = n, outcome = p\<rparr>"
  have s: "serial (log @ [?e])"
    using 3(2,3) by (auto simp: serial_snoc settledBy_def split: option.splits)
  show ?case
  proof (cases "settleTime p")
    case None
    then show ?thesis using pn s by simp
  next
    case (Some d)
    have "settledBy (now + int d) (log @ [?e])"
      using Some by (simp add: settledBy_def completedAt_def)
    from 3(1)[OF pn[symmetric] refl Some s this] show ?thesis using pn Some by simp
  qed
next
  case (4 now q log)
  then show ?case by simp
next
  case (5 fuel now q log)
  obtain q' act where st: "processQueue now q = (q', act)" by (cases "processQueue now q")
  from 5(1)[OF st[symmetric] 5(2,3)] st show ?case by simp
qed

lemma serial_head:
  "serial (a # log) \<Longrightarrow> j < length log \<Longrightarrow>
     (case completedAt a of None \<Rightarrow> False | Some c \<Rightarrow> c \<le> admittedAt (log ! j))"
proof (induction log arbitrary: a j)
  case Nil
  then show ?case by simp
next
  case (Cons b rest)
  from Cons.prems(1) obtain c where c: "completedAt a = Some c" "c \<le> admittedAt b"
    and sb: "serial (b # rest)"
    by (auto split: option.splits)
  show ?case
  proof (cases j)
    case 0
    then show ?thesis using c by simp
  next
    case (Suc k)
    with Cons.prems(2) have k: "k < length rest" by simp
    from Cons.IH[OF sb k] obtain cb where cb: "completedAt b = Some cb" "cb \<le> admittedAt (rest ! k)"
      by (auto split: option.splits)
    from cb(1) have "admittedAt b \<le> cb" by (auto simp: completedAt_def)
    with c cb Suc show ?thesis by simp
  qed
qed

lemma serial_pairs:
  "serial log \<Longrightarrow> i < j \<Longrightarrow> j < length log \<Longrightarrow>
     (case completedAt (log ! i) of None \<Rightarrow> False | Some c \<Rightarrow> c \<le> admittedAt (log ! j))"
proof (induction log arbitrary: i j)
  case Nil
  then show ?case by simp
next
  case (Cons a rest)
  obtain j' where j: "j = Suc j'" using Cons.prems(2) by (cases j) auto
  show ?case
  proof (cases i)
    case 0
    then show ?thesis using serial_head[OF Cons.prems(1), of j'] Cons.prems(3) j
      by (simp split: option.splits)
  next
    case (Suc i')
    have "serial rest" using Cons.prems(1) by (cases rest) auto
    from Cons.IH[OF this, of i' j'] Cons.prems(2,3) j Suc show ?thesis
      by (simp split: option.splits)
  qed
qed

lemma stampsOf_later: "stampsOf now s a \<Longrightarrow> now \<le> now' \<Longrightarrow> stampsOf now' s a"
proof -
  assume "stampsOf now s a" and le: "now \<le> now'"
  then obtain c where "c < now" "s = filter (\<lambda>t. c < t) a" by (auto simp: stampsOf_def)
  with le have "c < now' \<and> s = filter (\<lambda>t. c < t) a" by simp
  then show ?thesis unfolding stampsOf_def by (rule exI)
qed

lemma filter_filter_max:
  "filter (\<lambda>t. (a::int) < t) (filter (\<lambda>t. c < t) xs) = filter (\<lambda>t. max c a < t) xs"
  by (induction xs) auto

lemma stampsOf_purge:
  assumes "c < now" "stamps = filter (\<lambda>t. c < t) L"
  shows "stampsOf now (filter (\<lambda>x. now - 60000 < x) stamps) L"
    and "stampsOf now (filter (\<lambda>x. now - 60000 < x) stamps @ [now]) (L @ [now])"
proof -
  let ?c = "max c (now - 60000)"
  have m: "?c < now" using assms(1) by simp
  have e: "filter (\<lambda>x. now - 60000 < x) stamps = filter (\<lambda>t. ?c < t) L"
    unfolding assms(2) by (rule filter_filter_max)
  from m e have "?c < now \<and> filter (\<lambda>x. now - 60000 < x) stamps = filter (\<lambda>t. ?c < t) L" by (rule conjI)
  then show "stampsOf now (filter (\<lambda>x. now - 60000 < x) stamps) L"
    unfolding stampsOf_def by (rule exI)
  have "filter (\<lambda>x. now - 60000 < x) stamps @ [now] = filter (\<lambda>t. ?c < t) (L @ [now])"
    unfolding e using m by (simp del: max_less_iff_conj)
  with m have "?c < now \<and> filter (\<lambda>x. now - 60000 < x) stamps @ [now] = filter (\<lambda>t. ?c < t) (L @ [now])"
    by (rule conjI)
  then show "stampsOf now (filter (\<lambda>x. now - 60000 < x) stamps @ [now]) (L @ [now])"
    unfolding stampsOf_def by (rule exI)
qed

lemma stampsOf_processQueue:
  assumes "stampsOf now (requestTimestamps q) L" "processQueue now q = (q', act)"
  shows "stampsOf now (requestTimestamps q') (L @ pendingStamp act now)"
proof -
  from assms(1) obtain c where c: "c < now" "requestTimestamps q = filter (\<lambda>t. c < t) L"
    by (auto simp: stampsOf_def)
  note purge = stampsOf_purge[OF c]
  show ?thesis
  proof (rule processQueue_cases[where q=q and now=now])
    assume "processQueue now q = (q\<lparr>processing := False\<rparr>, Idle)"
    then show ?thesis using assms by (auto simp: pendingStamp_def)
  next
    fix w
    assume "processQueue now q = (q\<lparr>processing := True,
          requestTimestamps := filter (\<lambda>x. now - 60000 < x) (requestTimestamps q)\<rparr>, Defer w)"
    with assms(2) have "requestTimestamps q' = filter (\<lambda>x. now - 60000 < x) (requestTimestamps q)" "act = Defer w"
      by auto
    then show ?thesis using purge(1) by (simp add: pendingStamp_def)
  next
    fix r rest
    assume "processQueue now q = (q\<lparr>processing := True, queue := rest,
          requestTimestamps := filter (\<lambda>x. now - 60000 < x) (requestTimestamps q) @ [now]\<rparr>, Admit r)"
    with assms(2) have "requestTimestamps q' = filter (\<lambda>x. now - 60000 < x) (requestTimestamps q) @ [now]" "act = Admit r"
      by auto
    then show ?thesis using purge(2) by (simp add: pendingStamp_def)
  qed
qed

lemma stamps_drain:
  "stampsOf now (requestTimestamps q) (map admittedAt log @ pendingStamp act now) \<Longrightarrow>
     (case afterProcessQueue fuel now act q log of (q', log') \<Rightarrow>
        \<exists>c. requestTimestamps q' = filter (\<lambda>t. c < t) (map admittedAt log'))"
  "stampsOf now (requestTimestamps q) (map admittedAt log) \<Longrightarrow>
     (case callProcessQueue fuel now q log of (q', log') \<Rightarrow>
        \<exists>c. requestTimestamps q' = filter (\<lambda>t. c < t) (map admittedAt log'))"
proof (induction fuel now act q log and fuel now q log rule: afterProcessQueue_callProcessQueue.induct)
  case (1 fuel now q log)
  then show ?case by (auto simp: stampsOf_def pendingStamp_def)
next
  case (2 fuel now w q log)
  have "stampsOf (now + int (setTimeout_delay w)) (requestTimestamps q) (map admittedAt log)"
  proof (rule stampsOf_later[of now])
    show "stampsOf now (requestTimestamps q) (map admittedAt log)"
      using 2(2) by (simp add: pendingStamp_def)
  qed simp
  from 2(1)[OF this] show ?case by simp
next
  case (3 fuel now r q log)
  obtain p n where pn: "executeWithRetry (options q) r 1 = (p, n)"
    by (cases "executeWithRetry (options q) r 1")
  let ?e = "\<lparr>admittedAt = now, calls = n, outcome = p\<rparr>"
  have s: "stampsOf now (requestTimestamps q) (map admittedAt (log @ [?e]))"
    using 3(2) by (simp add: pendingStamp_def)
  show ?case
  proof (cases "settleTime p")
    case None
    then show ?thesis using pn s by (auto simp: stampsOf_def)
  next
    case (Some d)
    have "stampsOf (now + int d) (requestTimestamps q) (map admittedAt (log @ [?e]))"
      using s by (rule stampsOf_later) simp
    from 3(1)[OF pn[symmetric] refl Some this] show ?thesis using pn Some by simp
  qed
next
  case (4 now q log)
  then show ?case by (auto simp: stampsOf_def)
next
  case (5 fuel now q log)
  obtain q' act where st: "processQueue now q = (q', act)" by (cases "processQueue now q")
  from stampsOf_processQueue[OF 5(2) st] 5(1)[OF st[symmetric]] st show ?case by simp
qed

lemma processQueue_processing:
  "processQueue now q = (q', act) \<Longrightarrow> (case act of Idle \<Rightarrow> True | _ \<Rightarrow> processing q')"
  by (rule processQueue_cases[where q=q and now=now]) auto

lemma burst_inv_enqueueAll:
  "burst_inv now q act \<Longrightarrow> enqueueAll now rs q act = (q', act') \<Longrightarrow> burst_inv now q' act'"
proof (induction rs arbitrary: q act)
  case Nil
  then show ?case by simp
next
  case (Cons r rs)
  obtain q1 a1 where st: "enqueue now r q = (q1, a1)" by (cases "enqueue now r q")
  let ?act1 = "case a1 of Idle \<Rightarrow> act | _ \<Rightarrow> a1"
  have "burst_inv now q1 ?act1"
  proof (cases "processing q")
    case True
    then show ?thesis using st Cons.prems(1) by (cases act) (auto simp: enqueue_def Let_def burst_inv_def)
  next
    case False
    then have idle: "act = Idle" using Cons.prems(1) by (cases act) (auto simp: burst_inv_def)
    from False st have pq: "processQueue now (q\<lparr>queue := queue q @ [r]\<rparr>) = (q1, a1)"
      by (simp add: enqueue_def Let_def)
    have "stampsOf now (requestTimestamps (q\<lparr>queue := queue q @ [r]\<rparr>)) []"
      using Cons.prems(1) idle by (simp add: burst_inv_def pendingStamp_def)
    from stampsOf_processQueue[OF this pq] processQueue_processing[OF pq] idle
    show ?thesis by (cases a1) (auto simp: burst_inv_def pendingStamp_def)
  qed
  moreover have "enqueueAll now rs q1 ?act1 = (q', act')" using Cons.prems(2) st by simp
  ultimately show ?case by (rule Cons.IH)
qed

lemma stamps_simulate:
  "case simulate opts now requests fuel of (q', log') \<Rightarrow>
     \<exists>c. requestTimestamps q' = filter (\<lambda>t. c < t) (map admittedAt log')"
proof -
  obtain q act where ea: "enqueueAll now requests (newRequestQueue opts) Idle = (q, act)"
    by (cases "enqueueAll now requests (newRequestQueue opts) Idle")
  have "burst_inv now (newRequestQueue opts) Idle"
    by (auto simp: burst_inv_def stampsOf_def pendingStamp_def newRequestQueue_def intro: exI[where x="now - 1"])
  from burst_inv_enqueueAll[OF this ea] have "stampsOf now (requestTimestamps q) (map admittedAt [] @ pendingStamp act now)"
    by (simp add: burst_inv_def)
  from stamps_drain(1)[OF this] show ?thesis by (simp add: simulate_def ea)
qed

subsection \<open>Every drain is a history\<close>

lemma runEvents_append:
  "runEvents (xs @ ys) q log = (case runEvents xs q log of (q', log') \<Rightarrow> runEvents ys q' log')"
  by (induction xs q log rule: runEvents.induct) (auto split: prod.splits)

lemma map_snd_noteAdmission:
  "map snd (noteAdmission now act LA) = map snd LA @ pendingStamp act now"
  by (cases act) (auto simp: noteAdmission_def pendingStamp_def)

lemma replays_refl: "map snd LA = stamps \<Longrightarrow> replays now q LA q stamps"
  unfolding replays_def by (rule exI[where x = "[]"]) (simp add: enqueued_def)

lemma replays_later: "replays now' q LA q' stamps \<Longrightarrow> now \<le> now' \<Longrightarrow> replays now q LA q' stamps"
  unfolding replays_def by fastforce

lemma replays_callback:
  assumes "processQueue now q = (q1, act)" "replays now q1 (noteAdmission now act LA) q' stamps"
  shows "replays now q LA q' stamps"
proof -
  from assms(2) obtain evs LA' where e: "sorted (map fst evs)" "\<forall>t \<in> set (map fst evs). now \<le> t"
    "enqueued evs = []" "runEvents evs q1 (noteAdmission now act LA) = (q', LA')" "map snd LA' = stamps"
    unfolding replays_def by blast
  have "sorted (map fst ((now, Callback) # evs)) \<and> (\<forall>t \<in> set (map fst ((now, Callback) # evs)). now \<le> t) \<and>
        enqueued ((now, Callback) # evs) = [] \<and>
        runEvents ((now, Callback) # evs) q LA = (q', LA') \<and> map snd LA' = stamps"
    using e assms(1) by (simp add: fire_def enqueued_def)
  then show ?thesis unfolding replays_def by blast
qed

lemma replays_drain:
  "map snd LA = map admittedAt log @ pendingStamp act now \<Longrightarrow>
     (case afterProcessQueue fuel now act q log of
        (q', log') \<Rightarrow> replays now q LA q' (map admittedAt log'))"
  "map snd LA = map admittedAt log \<Longrightarrow>
     (case callProcessQueue fuel now q log of
        (q', log') \<Rightarrow> replays now q LA q' (map admittedAt log'))"
proof (induction fuel now act q log and fuel now q log arbitrary: LA and LA
    rule: afterProcessQueue_callProcessQueue.induct)
  case (1 fuel now q log)
  then show ?case by (simp add: replays_refl pendingStamp_def)
next
  case (2 fuel now w q log)
  have "map snd LA = map admittedAt log" using 2(2) by (simp add: pendingStamp_def)
  from 2(1)[OF this] show ?case
    by (auto split: prod.splits intro: replays_later)
next
  case (3 fuel now r q log)
  obtain p n where pn: "executeWithRetry (options q) r 1 = (p, n)"
    by (cases "executeWithRetry (options q) r 1")
  let ?e = "\<lparr>admittedAt = now, calls = n, outcome = p\<rparr>"
  have s: "map snd LA = map admittedAt (log @ [?e])"
    using 3(2) by (simp add: pendingStamp_def)
  show ?case
  proof (cases "settleTime p")
    case None
    then show ?thesis using pn s by (simp add: replays_refl)
  next
    case (Some d)
    from 3(1)[OF pn[symmetric] refl Some s] show ?thesis using pn Some
      by (auto split: prod.splits intro: replays_later)
  qed
next
  case (4 now q log)
  then show ?case by (simp add: replays_refl)
next
  case (5 fuel now q log)
  obtain q1 act where st: "processQueue now q = (q1, act)" by (cases "processQueue now q")
  have "map snd (noteAdmission now act LA) = map admittedAt log @ pendingStamp act now"
    using 5(2) by (simp add: map_snd_noteAdmission)
  from 5(1)[OF st[symmetric] this] show ?case using st
    by (auto split: prod.splits intro: replays_callback)
qed

lemma burst_events:
  "(case act of Idle \<Rightarrow> True | _ \<Rightarrow> processing q) \<Longrightarrow> map snd LA = stamps @ pendingStamp act now \<Longrightarrow>
   enqueueAll now rs q act = (q', act') \<Longrightarrow>
     \<exists>LA'. runEvents (map (\<lambda>r. (now, Enqueue r)) rs) q LA = (q', LA') \<and>
        map snd LA' = stamps @ pendingStamp act' now \<and>
        (case act' of Idle \<Rightarrow> True | _ \<Rightarrow> processing q')"
proof (induction rs arbitrary: q act LA)
  case Nil
  then show ?case by auto
next
  case (Cons r rs)
  obtain q1 a1 where st: "enqueue now r q = (q1, a1)" by (cases "enqueue now r q")
  let ?act1 = "case a1 of Idle \<Rightarrow> act | _ \<Rightarrow> a1"
  have run: "enqueueAll now rs q1 ?act1 = (q', act')" using Cons.prems(3) st by simp
  have inv: "(case ?act1 of Idle \<Rightarrow> True | _ \<Rightarrow> processing q1) \<and>
      map snd (noteAdmission now a1 LA) = stamps @ pendingStamp ?act1 now"
  proof (cases "processing q")
    case True
    then have "q1 = q\<lparr>queue := queue q @ [r]\<rparr>" "a1 = Idle"
      using st by (auto simp: enqueue_def Let_def)
    then show ?thesis using Cons.prems(1,2) True
      by (cases act) (auto simp: noteAdmission_def)
  next
    case False
    then have idle: "act = Idle" using Cons.prems(1) by (cases act) auto
    from False st have pq: "processQueue now (q\<lparr>queue := queue q @ [r]\<rparr>) = (q1, a1)"
      by (simp add: enqueue_def Let_def)
    from processQueue_processing[OF pq] idle Cons.prems(2)
    show ?thesis by (cases a1) (auto simp: map_snd_noteAdmission pendingStamp_def)
  qed
  from Cons.IH[OF _ _ run, of "noteAdmission now a1 LA"] inv
  obtain LA' where "runEvents (map (\<lambda>r. (now, Enqueue r)) rs) q1 (noteAdmission now a1 LA) = (q', LA')"
    "map snd LA' = stamps @ pendingStamp act' now" "(case act' of Idle \<Rightarrow> True | _ \<Rightarrow> processing q')"
    by blast
  then show ?case using st by (simp add: fire_def)
qed

lemma enqueued_burst: "enqueued (map (\<lambda>r. (now, Enqueue r)) rs) = rs"
  by (induction rs) (simp_all add: enqueued_def)

lemma enqueued_append: "enqueued (xs @ ys) = enqueued xs @ enqueued ys"
  by (simp add: enqueued_def)

lemma simulate_history:
  "\<exists>evs LA. sorted (map fst evs) \<and> enqueued evs = requests \<and>
     runEvents evs (newRequestQueue opts) [] = (fst (simulate opts now requests fuel), LA) \<and>
     map snd LA = map admittedAt (snd (simulate opts now requests fuel))"
proof -
  let ?q0 = "newRequestQueue opts :: (int \<Rightarrow> 'a promise) RequestQueue"
  let ?burst = "map (\<lambda>r. (now, Enqueue r)) requests"
  obtain q act where ea: "enqueueAll now requests ?q0 Idle = (q, act)"
    by (cases "enqueueAll now requests ?q0 Idle")
  from burst_events[OF _ _ ea, of "[]" "[]"] obtain LA where
    b: "runEvents ?burst ?q0 [] = (q, LA)" "map snd LA = pendingStamp act now"
    by (auto simp: pendingStamp_def)
  obtain q' log' where dr: "afterProcessQueue fuel now act q [] = (q', log')"
    by (cases "afterProcessQueue fuel now act q []")
  from replays_drain(1)[where LA=LA and log="[]" and act=act and now=now and fuel=fuel and q=q] b(2) dr
  have "replays now q LA q' (map admittedAt log')" by simp
  then obtain evs LA' where e: "sorted (map fst evs)" "\<forall>t \<in> set (map fst evs). now \<le> t"
    "enqueued evs = []" "runEvents evs q LA = (q', LA')" "map snd LA' = map admittedAt log'"
    unfolding replays_def by blast
  have sim: "simulate opts now requests fuel = (q', log')" by (simp add: simulate_def ea dr)
  have "sorted (map (\<lambda>r. now) requests)" by (induction requests) auto
  then have 1: "sorted (map fst (?burst @ evs))"
    using e(1,2) by (auto simp: sorted_append comp_def)
  have 2: "enqueued (?burst @ evs) = requests"
    by (simp add: enqueued_append enqueued_burst e(3))
  have 3: "runEvents (?burst @ evs) ?q0 [] = (fst (simulate opts now requests fuel), LA')"
    by (simp add: runEvents_append b(1) e(4) sim)
  have 4: "map snd LA' = map admittedAt (snd (simulate opts now requests fuel))"
    by (simp add: e(5) sim)
  from 1 2 3 4 show ?thesis by blast
qed

lemma rate_ceiling_history:
  assumes "0 < R" "maxRequestsPerMinute opts = Some R" "sorted (map fst evs)"
    "runEvents evs (newRequestQueue opts) [] = (q', log')"
  shows "int (windowCount t (map snd log')) \<le> R"
proof -
  from assms have R: "js_or (maxRequestsPerMinute opts) 60 = R" by (simp add: js_or_def)
  obtain clock :: int where clock: "\<forall>t \<in> set (map fst evs). clock \<le> t"
  proof (cases evs)
    case Nil
    then show ?thesis using that[of 0] by simp
  next
    case (Cons x xs)
    then show ?thesis using that[of "fst x"] assms(3) by auto
  qed
  have "rate_inv R clock (newRequestQueue opts :: 'a RequestQueue) []"
    using rate_inv_init[of opts clock] R assms(1) by simp
  from rate_inv_runEvents[OF assms(4,3) this clock]
  obtain clock' where "rate_inv R clock' q' log'" by blast
  then show ?thesis by (simp add: rate_inv_def)
qed

subsection \<open>Timed histories\<close>

lemma loop_inv_schedule:
  assumes "serial log" "settledBy now log" "processQueue now q = (q', act)"
  shows "loop_inv (schedule now act q' log)"
proof (cases rule: processQueue_cases[of q now])
  case idle
  with assms(3) have "act = Idle" by simp
  with assms show ?thesis by (simp add: schedule_def loop_inv_def)
next
  case (wait w)
  with assms(3) have "act = Defer w" "processing q'" by auto
  with assms settledBy_later[of now log "now + int (setTimeout_delay w)"]
  show ?thesis by (simp add: schedule_def loop_inv_def)
next
  case (admit r rest)
  with assms(3) have a: "act = Admit r" "processing q'" by auto
  obtain p n where pn: "executeWithRetry (options q') r 1 = (p, n)"
    by (cases "executeWithRetry (options q') r 1")
  let ?e = "\<lparr>admittedAt = now, calls = n, outcome = p\<rparr>"
  have s: "serial (log @ [?e])"
    using assms(1,2) by (auto simp: serial_snoc settledBy_def split: option.splits)
  show ?thesis
    using a pn s
    by (cases "settleTime p") (auto simp: schedule_def loop_inv_def settledBy_def completedAt_def)
qed

lemma loop_inv_replay:
  "replay evs w = Some w' \<Longrightarrow> loop_inv w \<Longrightarrow> loop_inv w'"
proof (induction evs arbitrary: w)
  case Nil
  then show ?case by simp
next
  case (Cons x evs)
  obtain now ev where x: "x = (now, ev)" by (cases x)
  from Cons.prems(1) x have le: "lastEvent w \<le> now"
    by (auto split: if_splits)
  show ?case
  proof (cases ev)
    case (Enqueue r)
    obtain q' act where en: "enqueue now r (requestQueue w) = (q', act)"
      by (cases "enqueue now r (requestQueue w)")
    show ?thesis
    proof (cases "processing (requestQueue w)")
      case True
      then have q': "q' = (requestQueue w)\<lparr>queue := queue (requestQueue w) @ [r]\<rparr>"
        using en by (simp add: enqueue_def Let_def)
      have "loop_inv (w\<lparr>requestQueue := q', lastEvent := now\<rparr>)"
        using Cons.prems(2) True q'
        by (auto simp: loop_inv_def split: continuation.splits)
           (auto intro: settledBy_later[OF _ le])
      moreover have "replay evs (w\<lparr>requestQueue := q', lastEvent := now\<rparr>) = Some w'"
        using Cons.prems(1) x Enqueue en True le by simp
      ultimately show ?thesis using Cons.IH by blast
    next
      case False
      then have pq: "processQueue now ((requestQueue w)\<lparr>queue := queue (requestQueue w) @ [r]\<rparr>) = (q', act)"
        using en by (simp add: enqueue_def Let_def)
      from False Cons.prems(2) have "settledBy (lastEvent w) (admissions w)" "serial (admissions w)"
        by (auto simp: loop_inv_def split: continuation.splits)
      then have "loop_inv (schedule now act q' (admissions w))"
        using loop_inv_schedule[OF _ _ pq] settledBy_later[OF _ le] by blast
      moreover have "replay evs (schedule now act q' (admissions w)) = Some w'"
        using Cons.prems(1) x Enqueue en False le by simp
      ultimately show ?thesis using Cons.IH by blast
    qed
  next
    case Callback
    from Cons.prems(1) x Callback le obtain due where due: "continuation w = CallDue due" "due \<le> now"
      by (auto split: continuation.splits if_splits)
    obtain q' act where pq: "processQueue now (requestQueue w) = (q', act)"
      by (cases "processQueue now (requestQueue w)")
    from due Cons.prems(2) have "settledBy due (admissions w)" "serial (admissions w)"
      by (auto simp: loop_inv_def)
    then have "loop_inv (schedule now act q' (admissions w))"
      using loop_inv_schedule[OF _ _ pq] settledBy_later[OF _ due(2)] by blast
    moreover have "replay evs (schedule now act q' (admissions w)) = Some w'"
      using Cons.prems(1) x Callback pq due le by simp
    ultimately show ?thesis using Cons.IH by blast
  qed
qed

lemma loop_inv_new: "loop_inv (newEventLoop opts now)"
  by (simp add: loop_inv_def newEventLoop_def settledBy_def)

lemma replay_serial:
  assumes "replay evs (newEventLoop opts start) = Some w"
  shows "serial (admissions w)"
  using loop_inv_replay[OF assms loop_inv_new] by (simp add: loop_inv_def)

lemma processQueue_options:
  assumes "processQueue now q = (q', act)"
  shows "options q' = options q"
  by (rule processQueue_cases[where q=q and now=now]) (use assms in auto)

lemma fire_options:
  assumes "fire now ev q = (q', act)"
  shows "options q' = options q"
  using assms processQueue_options[of now _ q' act]
  by (cases ev) (auto simp: fire_def enqueue_def Let_def split: if_splits)

lemma schedule_servedAs:
  "requestQueue (schedule now act q (map (servedAs (options q)) LA)) = q \<and>
   admissions (schedule now act q (map (servedAs (options q)) LA)) =
     map (servedAs (options q)) (noteAdmission now act LA)"
  by (cases act) (auto simp: schedule_def noteAdmission_def servedAs_def split: prod.splits)

lemma replay_runEvents:
  "replay evs w = Some w' \<Longrightarrow> options (requestQueue w) = opts \<Longrightarrow>
   admissions w = map (servedAs opts) LA \<Longrightarrow> runEvents evs (requestQueue w) LA = (q', LA') \<Longrightarrow>
     requestQueue w' = q' \<and> admissions w' = map (servedAs opts) LA' \<and> options q' = opts"
proof (induction evs arbitrary: w LA)
  case Nil
  then show ?case by simp
next
  case (Cons x evs)
  obtain now ev where x: "x = (now, ev)" by (cases x)
  obtain q1 act where st: "fire now ev (requestQueue w) = (q1, act)"
    by (cases "fire now ev (requestQueue w)")
  from Cons.prems(4) x st have run: "runEvents evs q1 (noteAdmission now act LA) = (q', LA')"
    by simp
  have o1: "options q1 = opts" using fire_options[OF st] Cons.prems(2) by simp
  from Cons.prems(1) x have le: "\<not> now < lastEvent w" by (auto split: if_splits)
  have "\<exists>w1. replay evs w1 = Some w' \<and> requestQueue w1 = q1 \<and>
          admissions w1 = map (servedAs opts) (noteAdmission now act LA)"
  proof (cases ev)
    case (Enqueue r)
    show ?thesis
    proof (cases "processing (requestQueue w)")
      case True
      with st Enqueue have "act = Idle" by (auto simp: fire_def enqueue_def Let_def)
      then show ?thesis using Cons.prems(1,3) x Enqueue st True le
        by (auto simp: fire_def noteAdmission_def)
    next
      case False
      have "replay evs (schedule now act q1 (admissions w)) = Some w'"
        using Cons.prems(1) x Enqueue st False le by (auto simp: fire_def)
      then show ?thesis
        using schedule_servedAs[of now act q1 LA] o1 Cons.prems(3) by auto
    qed
  next
    case Callback
    have "replay evs (schedule now act q1 (admissions w)) = Some w'"
      using Cons.prems(1) x Callback st le
      by (auto simp: fire_def split: continuation.splits if_splits)
    then show ?thesis
      using schedule_servedAs[of now act q1 LA] o1 Cons.prems(3) by auto
  qed
  then obtain w1 where w1: "replay evs w1 = Some w'" "requestQueue w1 = q1"
      "admissions w1 = map (servedAs opts) (noteAdmission now act LA)"
    by blast
  from Cons.IH[OF w1(1) _ w1(3)] w1(2) o1 run show ?case by simp
qed

lemma outcome_servedAs: "outcome (servedAs opts x) = fst (executeWithRetry opts (fst x) 1)"
  by (cases x) (simp add: servedAs_def split: prod.splits)

lemma replay_requests:
  assumes "replay evs (newEventLoop opts start) = Some w"
  shows "map outcome (admissions w) =
     map (\<lambda>requestFn. fst (executeWithRetry (options (requestQueue w)) requestFn 1))
       (take (length (admissions w)) (enqueued evs))"
proof -
  let ?q0 = "newRequestQueue opts :: (int \<Rightarrow> 'a promise) RequestQueue"
  obtain q' LA' where run: "runEvents evs ?q0 [] = (q', LA')"
    by (cases "runEvents evs ?q0 []")
  from replay_runEvents[OF assms, of "options ?q0" "[]" q' LA'] run
  have w: "requestQueue w = q'" "admissions w = map (servedAs (options ?q0)) LA'"
      "options q' = options ?q0"
    by (simp_all add: newEventLoop_def)
  from runEvents_fifo[OF run] have "map fst LA' @ queue q' = enqueued evs"
    by (simp add: newRequestQueue_def)
  then have "take (length LA') (enqueued evs) = map fst LA'"
    by (metis append_eq_conv_conj length_map)
  then show ?thesis
    using w by (simp add: outcome_servedAs)
qed

section \<open>The batch runners: claims\<close>

text \<open>
  C4. With \<open>abortOnError = false\<close> the number of results plus the number of collected
  errors should be the number of tasks. Two inputs on which it is not. Tasks
  \<open>[null, 7]\<close>, the first fulfilling with \<^verbatim>\<open>null\<close>: both runners use \<^verbatim>\<open>null\<close> as
  the mark of a failed task, so the filter \<^verbatim>\<open>result !== null\<close> drops the first result,
  and nothing is pushed to \<open>errors\<close>: one result and no error for two tasks. And in
  \<open>executeParallelTasks\<close>, three tasks of one batch, the second of which throws when it is
  called: \<^verbatim>\<open>batch.map\<close> throws, the \<^verbatim>\<open>catch\<close> after the block swallows the throw, and
  the batch adds no result and no error. (\<open>executeParallel\<close> calls the tasks inside its
  handlers, and counts that batch right.)
\<close>

theorem null_result_is_not_counted:
  "executeParallel [Async (Fulfils 1 (Null :: nat js)), Async (Fulfils 2 (Val 7))]
     (Some 5) (Some False) = Some (Returns [Val 7] []) \<and>
   executeParallelTasks [Async (Fulfils 1 (Null :: nat js)), Async (Fulfils 2 (Val 7))]
     \<lparr>maxConcurrent = Some 5, abortOnError = Some False, timeoutMs = Some 50\<rparr> =
     Some (Returns [Val 7] []) \<and>
   length [Val (7::nat)] + length ([] :: js_error list) \<noteq>
     length [Async (Fulfils 1 (Null :: nat js)), Async (Fulfils 2 (Val 7))] \<and>
   executeParallelTasks
     [Async (Fulfils 1 (Val (1::nat))), Throwing (Raw ''boom''), Async (Fulfils 2 (Val 2))]
     \<lparr>maxConcurrent = Some 5, abortOnError = Some False, timeoutMs = Some 50\<rparr> =
     Some (Returns [] []) \<and>
   executeParallel
     [Async (Fulfils 1 (Val (1::nat))), Throwing (Raw ''boom''), Async (Fulfils 2 (Val 2))]
     (Some 5) (Some False) = Some (Returns [Val 1, Val 2] [PlainError ''boom''])"
  by code_simp

text \<open>
  C5. With \<open>abortOnError = false\<close> the results should be the results of the successful
  tasks in task order, and the errors those of the failed tasks; for
  \<open>[A (success), B (failure), C (success)]\<close> the results \<open>[A's, C's]\<close> and the errors
  \<open>[B's]\<close>. When A succeeds with \<^verbatim>\<open>null\<close>, both runners return C's result alone: A's
  result is dropped with the \<^verbatim>\<open>null\<close> marks of the failures. And when B fails by
  throwing as it is called, \<open>executeParallelTasks\<close> returns no result and collects no
  error. For results that are not \<^verbatim>\<open>null\<close> and a B whose promise is rejected, both
  runners return \<open>[A's, C's]\<close> and collect \<open>[B's]\<close>.
\<close>

theorem null_result_is_omitted:
  "executeParallel
     [Async (Fulfils 1 (Null :: string js)), Async (Rejects 2 (Err (PlainError ''B''))),
      Async (Fulfils 3 (Val ''C''))]
     (Some 5) (Some False) = Some (Returns [Val ''C''] [PlainError ''B'']) \<and>
   executeParallelTasks
     [Async (Fulfils 1 (Null :: string js)), Async (Rejects 2 (Err (PlainError ''B''))),
      Async (Fulfils 3 (Val ''C''))]
     \<lparr>maxConcurrent = Some 5, abortOnError = Some False, timeoutMs = Some 50\<rparr> =
     Some (Returns [Val ''C''] [PlainError ''B'']) \<and>
   [Val ''C''] \<noteq> [Null, Val ''C''] \<and>
   executeParallelTasks
     [Async (Fulfils 1 (Val ''A'')), Throwing (Err (PlainError ''B'')), Async (Fulfils 3 (Val ''C''))]
     \<lparr>maxConcurrent = Some 5, abortOnError = Some False, timeoutMs = Some 50\<rparr> =
     Some (Returns [] []) \<and>
   executeParallel
     [Async (Fulfils 5 (Val ''A'')), Async (Rejects 3 (Err (PlainError ''B''))),
      Async (Fulfils 1 (Val ''C''))]
     (Some 2) (Some False) = Some (Returns [Val ''A'', Val ''C''] [PlainError ''B'']) \<and>
   executeParallelTasks
     [Async (Fulfils 5 (Val ''A'')), Async (Rejects 3 (Err (PlainError ''B''))),
      Async (Fulfils 1 (Val ''C''))]
     \<lparr>maxConcurrent = Some 2, abortOnError = Some False, timeoutMs = Some 50\<rparr> =
     Some (Returns [Val ''A'', Val ''C''] [PlainError ''B''])"
  by code_simp



text \<open>
  C7, as amended. Neither runner checks \<open>maxConcurrent\<close>. A call with \<open>maxConcurrent\<close>
  zero or negative and a non-empty task list never returns results and raises no
  configuration error: with \<open>maxConcurrent = 0\<close> it never settles; with a negative
  \<open>maxConcurrent\<close> it never settles either, unless \<open>abortOnError\<close> is set and a task
  fails, when the call may throw that task's error: what a task has thrown, the reason of
  a task's rejected promise or, in \<open>executeParallelTasks\<close>, the timeout error.
\<close>

theorem nonpositive_maxConcurrent:
  "(mc \<le> 0 \<and> tasks \<noteq> [] \<longrightarrow>
      executeParallel tasks (Some mc) ab = None \<or>
      (mc < 0 \<and> ab = Some True \<and>
       (\<exists>e. executeParallel tasks (Some mc) ab = Some (Throws e) \<and>
          (Throwing e \<in> set tasks \<or> (\<exists>d. Async (Rejects d e) \<in> set tasks))))) \<and>
   (tasks \<noteq> [] \<longrightarrow> executeParallel tasks (Some 0) ab = None) \<and>
   (mc \<le> 0 \<and> tasks \<noteq> [] \<longrightarrow>
      executeParallelTasks tasks \<lparr>maxConcurrent = Some mc, abortOnError = ab, timeoutMs = tmo\<rparr> = None \<or>
      (mc < 0 \<and> ab = Some True \<and>
       (\<exists>e. executeParallelTasks tasks \<lparr>maxConcurrent = Some mc, abortOnError = ab, timeoutMs = tmo\<rparr> =
          Some (Throws e) \<and>
          (Throwing e \<in> set tasks \<or> (\<exists>d. Async (Rejects d e) \<in> set tasks) \<or>
           e = Err (TaskTimedOut (case tmo of None \<Rightarrow> 60000 | Some t \<Rightarrow> t)))))) \<and>
   (tasks \<noteq> [] \<longrightarrow>
      executeParallelTasks tasks \<lparr>maxConcurrent = Some 0, abortOnError = ab, timeoutMs = tmo\<rparr> = None)"
proof -
  have fc: "executeParallel tasks (Some m) ab = None \<or>
      (m < 0 \<and> ab = Some True \<and>
       (\<exists>e. executeParallel tasks (Some m) ab = Some (Throws e) \<and>
          (Throwing e \<in> set tasks \<or> (\<exists>d. Async (Rejects d e) \<in> set tasks))))"
    if "m \<le> 0" "tasks \<noteq> []" for m
  proof (cases "executeParallel tasks (Some m) ab")
    case None
    then show ?thesis by simp
  next
    case (Some y)
    let ?abort = "case ab of None \<Rightarrow> False | Some a \<Rightarrow> a"
    from Some have "runBatches awaitedBatch tasks m ?abort 0 [] [] = Some y"
      by (simp add: executeParallel_def)
    from runBatches_nonpositive[OF this] awaitedBatch_Nil that obtain e where
      e: "?abort" "m < 0" "y = Throws e" "awaitedBatch True (js_slice tasks 0 m) = TryThrows e"
      by blast
    from awaitedBatch_throws[OF e(4)] set_js_slice[of tasks 0 m]
    have "Throwing e \<in> set tasks \<or> (\<exists>d. Async (Rejects d e) \<in> set tasks)" by blast
    with e Some show ?thesis by (cases ab) auto
  qed
  have oa: "executeParallelTasks tasks \<lparr>maxConcurrent = Some m, abortOnError = ab, timeoutMs = tmo\<rparr> = None \<or>
      (m < 0 \<and> ab = Some True \<and>
       (\<exists>e. executeParallelTasks tasks \<lparr>maxConcurrent = Some m, abortOnError = ab, timeoutMs = tmo\<rparr> =
          Some (Throws e) \<and>
          (Throwing e \<in> set tasks \<or> (\<exists>d. Async (Rejects d e) \<in> set tasks) \<or>
           e = Err (TaskTimedOut (case tmo of None \<Rightarrow> 60000 | Some t \<Rightarrow> t)))))"
    if "m \<le> 0" "tasks \<noteq> []" for m
  proof (cases "executeParallelTasks tasks \<lparr>maxConcurrent = Some m, abortOnError = ab, timeoutMs = tmo\<rparr>")
    case None
    then show ?thesis by simp
  next
    case (Some y)
    let ?t = "case tmo of None \<Rightarrow> 60000 | Some t \<Rightarrow> t"
    let ?abort = "case ab of None \<Rightarrow> False | Some a \<Rightarrow> a"
    from Some have "runBatches (racedBatch ?t) tasks m ?abort 0 [] [] = Some y"
      by (simp add: executeParallelTasks_def Let_def)
    from runBatches_nonpositive[OF this] racedBatch_Nil that obtain e where
      e: "?abort" "m < 0" "y = Throws e" "racedBatch ?t True (js_slice tasks 0 m) = TryThrows e"
      by blast
    from racedBatch_throws[OF e(4)] set_js_slice[of tasks 0 m]
    have "Throwing e \<in> set tasks \<or> (\<exists>d. Async (Rejects d e) \<in> set tasks) \<or>
        e = Err (TaskTimedOut ?t)" by blast
    with e Some show ?thesis by (cases ab) auto
  qed
  show ?thesis using fc[of mc] fc[of 0] oa[of mc] oa[of 0] by auto
qed

theorem nonpositive_maxConcurrent_witness:
  "executeParallel [Async (Fulfils 1 (Val ''A''))] (Some 0) (Some False) = None \<and>
   executeParallelTasks [Async (Fulfils 1 (Val ''A''))]
     \<lparr>maxConcurrent = Some 0, abortOnError = Some True, timeoutMs = Some 50\<rparr> = None \<and>
   executeParallel [Async (Fulfils 1 (Val ''A'')), Async (Fulfils 1 (Val ''B''))]
     (Some (- 1)) (Some False) = None \<and>
   executeParallel [Async (Rejects 1 (Raw ''x'')), Async (Fulfils 1 (Val ''B''))]
     (Some (- 1)) (Some True) = Some (Throws (Raw ''x''))"
proof -
  have "executeParallel [Async (Rejects 1 (Raw ''x'')), Async (Fulfils 1 (Val ''B''))]
     (Some (- 1)) (Some True) = Some (Throws (Raw ''x''))"
    by code_simp
  then show ?thesis
    using nonpositive_maxConcurrent[of 0 "[Async (Fulfils 1 (Val ''A''))]" "Some False" "Some 50"]
      nonpositive_maxConcurrent[of 0 "[Async (Fulfils 1 (Val ''A''))]" "Some True" "Some 50"]
      nonpositive_maxConcurrent[of "- 1"
        "[Async (Fulfils 1 (Val ''A'')), Async (Fulfils 1 (Val ''B''))]" "Some False" "Some 50"]
    by simp
qed

text \<open>
  One task and \<open>maxConcurrent = 0\<close>: the slice \<^verbatim>\<open>tasks.slice(0, 0)\<close> is empty,
  \<^verbatim>\<open>Promise.all([])\<close> fulfils, and \<open>i\<close> stays 0, so the loop never ends and the call
  never settles.
\<close>

theorem nonpositive_maxConcurrent_counterexample:
  "executeParallel [Async (Fulfils 1 (Val ''A''))] (Some 0) (Some False) = None \<and>
   executeParallelTasks [Async (Fulfils 1 (Val ''A''))]
     \<lparr>maxConcurrent = Some 0, abortOnError = Some False, timeoutMs = Some 50\<rparr> = None"
proof -
  have a: False
    if "runBatches tryBlock ts 0 False 0 [] [] = Some y" "ts \<noteq> []"
       "\<forall>a. \<exists>vs ps. tryBlock a [] = TryResults vs ps"
    for ts :: "string task list" and y tryBlock
    using runBatches_nonpositive[OF that(1)] that(2,3) by simp
  have "executeParallel [Async (Fulfils 1 (Val ''A''))] (Some 0) (Some False) = None"
    using a[of awaitedBatch "[Async (Fulfils 1 (Val ''A''))]"] awaitedBatch_Nil
    by (cases "executeParallel [Async (Fulfils 1 (Val ''A''))] (Some 0) (Some False)")
       (auto simp: executeParallel_def)
  moreover have "executeParallelTasks [Async (Fulfils 1 (Val ''A''))]
     \<lparr>maxConcurrent = Some 0, abortOnError = Some False, timeoutMs = Some 50\<rparr> = None"
    using a[of "racedBatch 50" "[Async (Fulfils 1 (Val ''A''))]"] racedBatch_Nil
    by (cases "executeParallelTasks [Async (Fulfils 1 (Val ''A''))]
     \<lparr>maxConcurrent = Some 0, abortOnError = Some False, timeoutMs = Some 50\<rparr>")
       (auto simp: executeParallelTasks_def)
  ultimately show ?thesis by simp
qed

text \<open>
  C8. A task that has not settled when its timer fires should count as a failed task with
  a timeout error, which a run with \<open>abortOnError = false\<close> collects. In
  \<open>executeParallelTasks\<close> with a timeout of 50 milliseconds, a batch of a task that never
  settles and a task that throws when it is called: the throw ends \<^verbatim>\<open>batch.map\<close>, the
  \<^verbatim>\<open>catch\<close> after the block swallows it, and the call returns at once, with no result
  and no error; the timer of the first task fires later, on a promise that has no
  handler. Alone in its batch, the task that never settles gives the timeout error; and the
  client wrapper of \<open>executeParallel\<close>, for the same two tasks, collects both errors.
\<close>

theorem timeout_error_is_lost:
  "executeParallelTasks
     [Async (Never :: string js promise), Throwing (Err (PlainError ''boom''))]
     \<lparr>maxConcurrent = Some 2, abortOnError = Some False, timeoutMs = Some 50\<rparr> =
     Some (Returns [] []) \<and>
   executeParallelTasks [Async (Never :: string js promise)]
     \<lparr>maxConcurrent = Some 2, abortOnError = Some False, timeoutMs = Some 50\<rparr> =
     Some (Returns [] [TaskTimedOut 50]) \<and>
   client_executeParallel None
     [Async (Never :: string js promise), Throwing (Err (PlainError ''boom''))]
     (Some \<lparr>maxConcurrent = Some 2, abortOnError = Some False, timeoutMs = Some 50\<rparr>) =
     Some (Returns [] [PlainError ''boom'', PlainError ''Task execution timed out''])"
  by code_simp

section \<open>The rate-limited queue: claims\<close>

text \<open>
  C1. A queue configured with a ceiling of \<open>R > 0\<close> requests per minute, under any
  history of \<open>enqueue\<close> calls and \<open>processQueue\<close> callbacks whose clock readings never
  decrease, and so in every drain of a burst of requests: no window of 60 seconds holds
  more than \<open>R\<close> admission timestamps. And a call of \<open>processQueue\<close> on a non-empty
  queue admits the next request only when, after the timestamps older than 60 seconds are
  purged, fewer than the ceiling remain; otherwise it defers.
\<close>

theorem rate_ceiling:
  "(0 < R \<and> maxRequestsPerMinute opts = Some R \<and> sorted (map fst evs) \<longrightarrow>
      int (windowCount t (map snd (snd (runEvents evs (newRequestQueue opts) [])))) \<le> R) \<and>
   (0 < R \<and> maxRequestsPerMinute opts = Some R \<longrightarrow>
      int (windowCount t (map admittedAt (snd (simulate opts start requests fuel)))) \<le> R) \<and>
   (queue q \<noteq> [] \<longrightarrow>
      (case snd (processQueue now q) of
         Admit r \<Rightarrow>
           int (length (filter (\<lambda>x. now - 60000 < x) (requestTimestamps q)))
             < maxRequestsPerMinute (options q)
       | Defer w \<Rightarrow>
           int (length (filter (\<lambda>x. now - 60000 < x) (requestTimestamps q)))
             \<ge> maxRequestsPerMinute (options q)
       | Idle \<Rightarrow> False))"
proof (intro conjI impI)
  assume a: "0 < R \<and> maxRequestsPerMinute opts = Some R \<and> sorted (map fst evs)"
  obtain q' log' where run: "runEvents evs (newRequestQueue opts) [] = (q', log')"
    by (cases "runEvents evs (newRequestQueue opts) [] :: 'a RequestQueue \<times> ('a \<times> int) list")
  from rate_ceiling_history[OF _ _ _ run, of R t] a
  show "int (windowCount t (map snd (snd (runEvents evs (newRequestQueue opts) [])))) \<le> R"
    by (simp add: run)
next
  assume a: "0 < R \<and> maxRequestsPerMinute opts = Some R"
  from simulate_history[of requests opts start fuel] obtain hs LA where
    h: "sorted (map fst hs)"
       "runEvents hs (newRequestQueue opts) [] = (fst (simulate opts start requests fuel), LA)"
       "map snd LA = map admittedAt (snd (simulate opts start requests fuel))"
    by blast
  from rate_ceiling_history[OF _ _ h(1,2), of R t] a h(3)
  show "int (windowCount t (map admittedAt (snd (simulate opts start requests fuel)))) \<le> R"
    by simp
next
  assume ne: "queue q \<noteq> []"
  show "case snd (processQueue now q) of
         Admit r \<Rightarrow>
           int (length (filter (\<lambda>x. now - 60000 < x) (requestTimestamps q)))
             < maxRequestsPerMinute (options q)
       | Defer w \<Rightarrow>
           int (length (filter (\<lambda>x. now - 60000 < x) (requestTimestamps q)))
             \<ge> maxRequestsPerMinute (options q)
       | Idle \<Rightarrow> False"
    by (rule processQueue_cases[where q=q and now=now]) (use ne in auto)
qed

theorem rate_ceiling_witness:
  "map snd (snd (runEvents
      [(0, Enqueue ''a''), (0, Enqueue ''b''), (5, Callback), (7, Enqueue ''c''), (9, Callback),
       (60004, Callback), (60006, Callback)]
      (newRequestQueue \<lparr>maxRequestsPerMinute = Some 2, retryCount = None, retryDelayMs = None\<rparr>) []))
     = [0, 5, 60004] \<and>
   windowCount 60003 [0, 5, 60004] \<le> 2 \<and> windowCount 60004 [0, 5, 60004] \<le> 2 \<and>
   map admittedAt (snd (simulate
      \<lparr>maxRequestsPerMinute = Some 2, retryCount = None, retryDelayMs = None\<rparr> 0
      [constantly (Fulfils 5 ''a''), constantly (Fulfils 5 ''b'')] 4))
     = [0, 5] \<and>
   windowCount 60004 [0, 5] \<le> 2 \<and>
   snd (processQueue 9
      \<lparr>queue = [''c''], processing = True, requestTimestamps = [0, 5],
       options = \<lparr>maxRequestsPerMinute = 2, retryCount = 3, retryDelayMs = 1000\<rparr>\<rparr>) =
     Defer (Some 60091)"
proof -
  let ?evs = "[(0, Enqueue ''a''), (0, Enqueue ''b''), (5, Callback), (7, Enqueue ''c''), (9, Callback),
       (60004, Callback), (60006, Callback)]"
  let ?opts = "\<lparr>maxRequestsPerMinute = Some (2::int), retryCount = None, retryDelayMs = None\<rparr>"
  let ?reqs = "[constantly (Fulfils 5 ''a''), constantly (Fulfils 5 ''b'')]"
  let ?q = "\<lparr>queue = [''c''], processing = True, requestTimestamps = [0, 5],
       options = \<lparr>maxRequestsPerMinute = 2, retryCount = 3, retryDelayMs = 1000\<rparr>\<rparr>"
  have log: "map snd (snd (runEvents ?evs (newRequestQueue ?opts) [])) = [0, 5, 60004]"
    by code_simp
  have sim: "map admittedAt (snd (simulate ?opts 0 ?reqs 4)) = [0, 5]"
    by code_simp
  have pq: "snd (processQueue 9 ?q) = Defer (Some 60091)"
    by code_simp
  from rate_ceiling[of 2 ?opts ?evs 60003 0 ?reqs 4 ?q 9]
    rate_ceiling[of 2 ?opts ?evs 60004 0 ?reqs 4 ?q 9]
  show ?thesis unfolding log pq sim by simp
qed

text \<open>
  C9. Under any history of \<open>enqueue\<close> calls and callbacks, the requests admitted so far,
  in the order of their admission, followed by the requests still queued, are the
  submitted requests in submission order: admission is first in, first out, and a request
  is admitted only after every request submitted before it. When the clock readings
  never decrease, neither do the admission times. In a drain of requests submitted
  together, the requests served are the first of the submitted ones, the rest is still
  queued in order, and the admission times never decrease.
\<close>

theorem fifo_admission:
  "(case runEvents evs (newRequestQueue opts) [] of
      (q, log) \<Rightarrow> map fst log @ queue q = enqueued evs) \<and>
   (sorted (map fst evs) \<longrightarrow>
      sorted (map snd (snd (runEvents evs (newRequestQueue opts) [])))) \<and>
   (case simulate opts start requests fuel of
      (q, log) \<Rightarrow> queue q = drop (length log) requests \<and> sorted (map admittedAt log))"
proof (intro conjI impI)
  obtain q' log' where run: "runEvents evs (newRequestQueue opts) [] = (q', log')"
    by (cases "runEvents evs (newRequestQueue opts) [] :: 'a RequestQueue \<times> ('a \<times> int) list")
  have "queue (newRequestQueue opts :: 'a RequestQueue) = []"
    by (simp add: newRequestQueue_def)
  with runEvents_fifo[OF run]
  show "case runEvents evs (newRequestQueue opts) [] of
      (q, log) \<Rightarrow> map fst log @ queue q = enqueued evs"
    by (simp add: run)
  assume "sorted (map fst evs)"
  from runEvents_sorted[OF run this]
  show "sorted (map snd (snd (runEvents evs (newRequestQueue opts) [])))"
    by (simp add: run)
next
  obtain qf log where sim: "simulate opts start requests fuel = (qf, log)"
    by (cases "simulate opts start requests fuel")
  from simulate_history[of requests opts start fuel] obtain hs LA where
    h: "sorted (map fst hs)" "enqueued hs = requests"
       "runEvents hs (newRequestQueue opts) [] = (qf, LA)"
       "map snd LA = map admittedAt log"
    by (auto simp: sim)
  have "queue (newRequestQueue opts :: (int \<Rightarrow> 'b promise) RequestQueue) = []"
    by (simp add: newRequestQueue_def)
  with runEvents_fifo[OF h(3)] h(2) have f: "map fst LA @ queue qf = requests" by simp
  have "length LA = length log" using h(4) by (metis length_map)
  with f have "queue qf = drop (length log) requests"
    by (metis append_eq_conv_conj length_map)
  moreover from runEvents_sorted[OF h(3,1)] h(4) have "sorted (map admittedAt log)" by simp
  ultimately show "case simulate opts start requests fuel of
      (q, log) \<Rightarrow> queue q = drop (length log) requests \<and> sorted (map admittedAt log)"
    by (simp add: sim)
qed

theorem fifo_admission_witness:
  "runEvents
      [(0, Enqueue ''T1''), (0, Enqueue ''T2''), (0, Enqueue ''T3''), (4, Callback), (9, Callback)]
      (newRequestQueue \<lparr>maxRequestsPerMinute = None, retryCount = None, retryDelayMs = None\<rparr>) [] =
     (\<lparr>queue = [], processing = True, requestTimestamps = [0, 4, 9],
       options = \<lparr>maxRequestsPerMinute = 60, retryCount = 3, retryDelayMs = 1000\<rparr>\<rparr>,
      [(''T1'', 0), (''T2'', 4), (''T3'', 9)]) \<and>
   sorted [0, 4, 9 :: int] \<and>
   map outcome (snd (simulate
      \<lparr>maxRequestsPerMinute = None, retryCount = None, retryDelayMs = None\<rparr> 0
      [constantly (Fulfils 4 ''T1''), constantly (Fulfils 5 ''T2''), constantly (Fulfils 6 ''T3'')] 1)) =
     [Fulfils 4 ''T1'', Fulfils 5 ''T2''] \<and>
   queue (fst (simulate
      \<lparr>maxRequestsPerMinute = None, retryCount = None, retryDelayMs = None\<rparr> 0
      [constantly (Fulfils 4 ''T1''), constantly (Fulfils 5 ''T2''), constantly (Fulfils 6 ''T3'')] 1)) =
     [constantly (Fulfils 6 ''T3'')]"
proof -
  let ?evs = "[(0, Enqueue ''T1''), (0, Enqueue ''T2''), (0, Enqueue ''T3''), (4, Callback), (9, Callback)]"
  let ?opts = "\<lparr>maxRequestsPerMinute = None, retryCount = None, retryDelayMs = None\<rparr> :: int option RateLimitOptions"
  let ?reqs = "[constantly (Fulfils 4 ''T1''), constantly (Fulfils 5 ''T2''), constantly (Fulfils 6 ''T3'')]"
  have run: "runEvents ?evs (newRequestQueue ?opts) [] =
     (\<lparr>queue = [], processing = True, requestTimestamps = [0, 4, 9],
       options = \<lparr>maxRequestsPerMinute = 60, retryCount = 3, retryDelayMs = 1000\<rparr>\<rparr>,
      [(''T1'', 0), (''T2'', 4), (''T3'', 9)])"
    by code_simp
  have sim: "map outcome (snd (simulate ?opts 0 ?reqs 1)) = [Fulfils 4 ''T1'', Fulfils 5 ''T2'']"
    by code_simp
  then have len: "length (snd (simulate ?opts 0 ?reqs 1)) = 2"
    by (metis length_map length_Cons list.size(3) numeral_2_eq_2)
  from fifo_admission[where evs="?evs" and opts="?opts" and start=0 and requests="?reqs" and fuel=1] show ?thesis
    unfolding run using sim len by (simp add: case_prod_beta)
qed

text \<open>
  C2, as amended. When the queue admits a request it records the timestamp, starts the
  request and awaits it: the next admission attempt is scheduled only when the request
  has settled, retries included. So in every timed history of the queue, whenever its
  requests are submitted (to an idle queue, while a request is in flight, while
  \<open>processQueue\<close> waits for its timer), the admitted requests are the first submitted
  ones, each run by \<open>executeWithRetry\<close>, and of any two of them the earlier one has
  completed before the later one is admitted. The same holds in every drain of a burst of
  requests.
\<close>

theorem admission_awaits_completion:
  "(replay evs (newEventLoop opts start) = Some w \<longrightarrow>
      serial (admissions w) \<and>
      (\<forall>i j. i < j \<and> j < length (admissions w) \<longrightarrow>
         (case completedAt (admissions w ! i) of
            None \<Rightarrow> False
          | Some c \<Rightarrow> c \<le> admittedAt (admissions w ! j))) \<and>
      map outcome (admissions w) =
        map (\<lambda>requestFn. fst (executeWithRetry (options (requestQueue w)) requestFn 1))
          (take (length (admissions w)) (enqueued evs))) \<and>
   serial (snd (simulate opts now requests fuel)) \<and>
   (i < j \<and> j < length (snd (simulate opts now requests fuel)) \<longrightarrow>
      (case completedAt (snd (simulate opts now requests fuel) ! i) of
         None \<Rightarrow> False
       | Some c \<Rightarrow> c \<le> admittedAt (snd (simulate opts now requests fuel) ! j)))"
proof -
  obtain q act where ea: "enqueueAll now requests (newRequestQueue opts) Idle = (q, act)"
    by (cases "enqueueAll now requests (newRequestQueue opts) Idle")
  have "serial (snd (afterProcessQueue fuel now act q []))"
    by (rule serial_drain(1)) (simp_all add: settledBy_def)
  then have s: "serial (snd (simulate opts now requests fuel))"
    by (simp add: simulate_def ea)
  have r: "serial (admissions w) \<and>
      (\<forall>i j. i < j \<and> j < length (admissions w) \<longrightarrow>
         (case completedAt (admissions w ! i) of
            None \<Rightarrow> False
          | Some c \<Rightarrow> c \<le> admittedAt (admissions w ! j))) \<and>
      map outcome (admissions w) =
        map (\<lambda>requestFn. fst (executeWithRetry (options (requestQueue w)) requestFn 1))
          (take (length (admissions w)) (enqueued evs))"
    if a: "replay evs (newEventLoop opts start) = Some w"
    using replay_serial[OF a] serial_pairs[OF replay_serial[OF a]] replay_requests[OF a]
    by blast
  from r s serial_pairs[OF s, of i j] show ?thesis by blast
qed

theorem admission_awaits_completion_witness:
  "map_option admissions
     (replay
        [(0, Enqueue (constantly (Fulfils 500 ''slow''))),
         (100, Enqueue (constantly (Fulfils 10 ''fast''))),
         (500, Callback), (510, Callback),
         (700, Enqueue (constantly (Fulfils 1 ''third''))), (701, Callback)]
        (newEventLoop \<lparr>maxRequestsPerMinute = None, retryCount = None, retryDelayMs = None\<rparr> 0)) =
     Some [\<lparr>admittedAt = 0, calls = 1, outcome = Fulfils 500 ''slow''\<rparr>,
           \<lparr>admittedAt = 500, calls = 1, outcome = Fulfils 10 ''fast''\<rparr>,
           \<lparr>admittedAt = 700, calls = 1, outcome = Fulfils 1 ''third''\<rparr>] \<and>
   serial [\<lparr>admittedAt = 0, calls = 1, outcome = Fulfils 500 ''slow''\<rparr>,
           \<lparr>admittedAt = 500, calls = 1, outcome = Fulfils 10 ''fast''\<rparr>,
           \<lparr>admittedAt = 700, calls = 1, outcome = Fulfils 1 ''third''\<rparr>] \<and>
   snd (simulate \<lparr>maxRequestsPerMinute = None, retryCount = None, retryDelayMs = None\<rparr> 0
      [constantly (Fulfils 5000 ''slow''), constantly (Fulfils 10 ''fast'')] 5) =
     [\<lparr>admittedAt = 0, calls = 1, outcome = Fulfils 5000 ''slow''\<rparr>,
      \<lparr>admittedAt = 5000, calls = 1, outcome = Fulfils 10 ''fast''\<rparr>] \<and>
   serial [\<lparr>admittedAt = 0, calls = 1, outcome = Fulfils 5000 ''slow''\<rparr>,
      \<lparr>admittedAt = 5000, calls = 1, outcome = Fulfils 10 ''fast''\<rparr>] \<and>
   completedAt \<lparr>admittedAt = 0, calls = 1, outcome = Fulfils 5000 ''slow''\<rparr> = Some 5000"
proof -
  let ?opts = "\<lparr>maxRequestsPerMinute = None, retryCount = None, retryDelayMs = None\<rparr> :: int option RateLimitOptions"
  let ?reqs = "[constantly (Fulfils 5000 ''slow''), constantly (Fulfils 10 ''fast'')] :: (int \<Rightarrow> string promise) list"
  let ?evs = "[(0, Enqueue (constantly (Fulfils 500 ''slow''))),
         (100, Enqueue (constantly (Fulfils 10 ''fast''))),
         (500, Callback), (510, Callback),
         (700, Enqueue (constantly (Fulfils 1 ''third''))), (701, Callback)]
      :: (int \<times> (int \<Rightarrow> string promise) event) list"
  let ?log = "[\<lparr>admittedAt = 0, calls = 1, outcome = Fulfils 500 ''slow''\<rparr>,
           \<lparr>admittedAt = 500, calls = 1, outcome = Fulfils 10 ''fast''\<rparr>,
           \<lparr>admittedAt = 700, calls = 1, outcome = Fulfils 1 ''third''\<rparr>]"
  have run: "map_option admissions (replay ?evs (newEventLoop ?opts 0)) = Some ?log"
    by code_simp
  then obtain w where w: "replay ?evs (newEventLoop ?opts 0) = Some w" "admissions w = ?log"
    by (cases "replay ?evs (newEventLoop ?opts 0)") auto
  have sim: "snd (simulate ?opts 0 ?reqs 5) =
     [\<lparr>admittedAt = 0, calls = 1, outcome = Fulfils 5000 ''slow''\<rparr>,
      \<lparr>admittedAt = 5000, calls = 1, outcome = Fulfils 10 ''fast''\<rparr>]"
    by code_simp
  from admission_awaits_completion[where evs = ?evs and opts = ?opts and start = 0 and w = w
      and now = 0 and requests = ?reqs and fuel = 5 and i = 0 and j = 1] w(1)
  have "serial (admissions w)"
    and "serial (snd (simulate ?opts 0 ?reqs 5))"
    by blast+
  then show ?thesis
    using run unfolding w(2) sim by (simp add: completedAt_def)
qed

text \<open>
  A ceiling of 60 and two requests submitted together at time 0. The first is admitted at
  0. The second is admitted when the first has settled: at 5000 when the first takes 5000
  milliseconds, at 20 when it takes 20 milliseconds; the ceiling would have let it in at 0.
\<close>

theorem admission_awaits_completion_counterexample:
  "map admittedAt (snd (simulate
      \<lparr>maxRequestsPerMinute = Some 60, retryCount = None, retryDelayMs = None\<rparr> 0
      [constantly (Fulfils 5000 ''slow''), constantly (Fulfils 10 ''fast'')] 5)) = [0, 5000] \<and>
   map admittedAt (snd (simulate
      \<lparr>maxRequestsPerMinute = Some 60, retryCount = None, retryDelayMs = None\<rparr> 0
      [constantly (Fulfils 20 ''slow''), constantly (Fulfils 10 ''fast'')] 5)) = [0, 20]"
  by code_simp

text \<open>
  C3. A queue configured with \<open>retryCount = 0\<close> and a request that is rejected with a
  429 \<^verbatim>\<open>FirecrawlError\<close> on every attempt: the constructor replaces the 0 by the default
  3, and the request is attempted 4 times, not once, before the error propagates.
\<close>

theorem retry_count_zero:
  "options (newRequestQueue
      \<lparr>maxRequestsPerMinute = None, retryCount = Some 0, retryDelayMs = None\<rparr>
        :: (int \<Rightarrow> string promise) RequestQueue) =
     \<lparr>maxRequestsPerMinute = 60, retryCount = 3, retryDelayMs = 1000\<rparr> \<and>
   executeWithRetry
     (options (newRequestQueue
        \<lparr>maxRequestsPerMinute = None, retryCount = Some 0, retryDelayMs = None\<rparr>
          :: (int \<Rightarrow> string promise) RequestQueue))
     (constantly (Rejects 10 (Err (FirecrawlError ''rate limited'' 429)) :: string promise)) 1 =
     (Rejects 6040 (Err (FirecrawlError ''rate limited'' 429)), 4)"
  by code_simp

text \<open>
  C10. A call of \<open>processQueue\<close> that admits a request appends exactly one timestamp, the
  time of the admission, to the purged rate window; \<open>executeWithRetry\<close> takes the options
  only and leaves the window alone. So after any drain of a burst of requests the rate
  window holds the admission times of the served requests, one per request, that are later
  than some cut-off, however often each request was attempted.
\<close>

theorem one_timestamp_per_request:
  "(processQueue now q = (q', Admit r) \<longrightarrow>
      requestTimestamps q' = filter (\<lambda>x. now - 60000 < x) (requestTimestamps q) @ [now]) \<and>
   (case simulate opts start requests fuel of
      (qf, log) \<Rightarrow> \<exists>c. requestTimestamps qf = filter (\<lambda>x. c < x) (map admittedAt log))"
proof (intro conjI impI)
  assume a: "processQueue now q = (q', Admit r)"
  show "requestTimestamps q' = filter (\<lambda>x. now - 60000 < x) (requestTimestamps q) @ [now]"
    by (rule processQueue_cases[where q=q and now=now]) (use a in auto)
next
  show "case simulate opts start requests fuel of
      (qf, log) \<Rightarrow> \<exists>c. requestTimestamps qf = filter (\<lambda>x. c < x) (map admittedAt log)"
    by (rule stamps_simulate)
qed

theorem one_timestamp_per_request_witness:
  "snd (simulate \<lparr>maxRequestsPerMinute = None, retryCount = Some 2, retryDelayMs = Some 100\<rparr> 0
      [failsUntil 3 (Rejects 10 (Err (FirecrawlError ''rate limited'' 429))) (Fulfils 10 ''A''),
       constantly (Fulfils 10 ''B'')] 5) =
     [\<lparr>admittedAt = 0, calls = 3, outcome = Fulfils 330 ''A''\<rparr>,
      \<lparr>admittedAt = 330, calls = 1, outcome = Fulfils 10 ''B''\<rparr>] \<and>
   requestTimestamps (fst (simulate
      \<lparr>maxRequestsPerMinute = None, retryCount = Some 2, retryDelayMs = Some 100\<rparr> 0
      [failsUntil 3 (Rejects 10 (Err (FirecrawlError ''rate limited'' 429))) (Fulfils 10 ''A''),
       constantly (Fulfils 10 ''B'')] 5)) = [0, 330] \<and>
   (\<exists>c. [0, 330] = filter (\<lambda>x. c < x) [0, 330 :: int]) \<and>
   requestTimestamps (fst (processQueue 330
      \<lparr>queue = [''B''], processing = True, requestTimestamps = [0],
       options = \<lparr>maxRequestsPerMinute = 60, retryCount = 2, retryDelayMs = 100\<rparr>\<rparr>)) = [0, 330]"
proof -
  let ?opts = "\<lparr>maxRequestsPerMinute = None, retryCount = Some 2, retryDelayMs = Some 100\<rparr> :: int option RateLimitOptions"
  let ?reqs = "[failsUntil 3 (Rejects 10 (Err (FirecrawlError ''rate limited'' 429))) (Fulfils 10 ''A''),
       constantly (Fulfils 10 ''B'')] :: (int \<Rightarrow> string promise) list"
  let ?q = "\<lparr>queue = [''B''], processing = True, requestTimestamps = [0],
       options = \<lparr>maxRequestsPerMinute = 60, retryCount = 2, retryDelayMs = 100\<rparr>\<rparr>"
  have log: "snd (simulate ?opts 0 ?reqs 5) =
     [\<lparr>admittedAt = 0, calls = 3, outcome = Fulfils 330 ''A''\<rparr>,
      \<lparr>admittedAt = 330, calls = 1, outcome = Fulfils 10 ''B''\<rparr>]"
    by code_simp
  have stamps: "requestTimestamps (fst (simulate ?opts 0 ?reqs 5)) = [0, 330]"
    by code_simp
  have pq: "processQueue 330 ?q = (?q\<lparr>queue := [], requestTimestamps := [0, 330]\<rparr>, Admit ''B'')"
    by code_simp
  from one_timestamp_per_request[of 330 ?q "?q\<lparr>queue := [], requestTimestamps := [0, 330]\<rparr>" "''B''" ?opts 0 ?reqs 5]
  show ?thesis unfolding log stamps using pq by (simp add: case_prod_beta log stamps)
qed

end
